theory Spec2Isabelle
  imports Main
begin

unbundle bit_operations_syntax

section \<open>Python string helpers used by the source\<close>

text \<open>
  Header names and values are protocol text; a Python \<open>str\<close> is modelled as a
  \<open>string\<close> and the case conversions act on the ASCII letters.
\<close>

definition lower_char :: "char \<Rightarrow> char" where
  "lower_char c =
     (case map_of (zip ''ABCDEFGHIJKLMNOPQRSTUVWXYZ'' ''abcdefghijklmnopqrstuvwxyz'') c of
        Some d \<Rightarrow> d
      | None \<Rightarrow> c)"

definition upper_char :: "char \<Rightarrow> char" where
  "upper_char c =
     (case map_of (zip ''abcdefghijklmnopqrstuvwxyz'' ''ABCDEFGHIJKLMNOPQRSTUVWXYZ'') c of
        Some d \<Rightarrow> d
      | None \<Rightarrow> c)"

text \<open>\<open>str.lower()\<close>\<close>

definition lower :: "string \<Rightarrow> string" where
  "lower s = map lower_char s"

text \<open>\<open>str.capitalize()\<close>: first character upper case, the rest lower case.\<close>

fun capitalize :: "string \<Rightarrow> string" where
  "capitalize [] = []"
| "capitalize (c # cs) = upper_char c # lower cs"

text \<open>\<open>str.split(sep)\<close> for a one-character separator: never returns the empty list.\<close>

fun split :: "char \<Rightarrow> string \<Rightarrow> string list" where
  "split sep [] = [[]]"
| "split sep (c # cs) =
     (if c = sep then [] # split sep cs
      else (case split sep cs of
              w # ws \<Rightarrow> (c # w) # ws
            | [] \<Rightarrow> [[c]]))"

text \<open>\<open>sep.join(parts)\<close>\<close>

fun join :: "string \<Rightarrow> string list \<Rightarrow> string" where
  "join sep [] = []"
| "join sep [x] = x"
| "join sep (x # y # ys) = x @ sep @ join sep (y # ys)"

text \<open>\<open>s.startswith(p)\<close>\<close>

definition startswith :: "string \<Rightarrow> string \<Rightarrow> bool" where
  "startswith s p = (take (length p) s = p)"

section \<open>asyn/http.py: HeaderDict\<close>

text \<open>
  A stored header value is either a single string or, once a name has been added more
  than once, a Python list of strings.
\<close>

datatype hvalue = Str string | List "string list"

type_synonym headerdict = "string \<rightharpoonup> hvalue"

datatype error =
    AttributeError | KeyError | TypeError | ValueError | IndexError | ExpatError | ParseError

text \<open>\<open>HeaderDict._key\<close>\<close>

definition HeaderDict_key :: "string \<Rightarrow> string" where
  "HeaderDict_key v = join ''-'' (map capitalize (split CHR ''-'' v))"

text \<open>\<open>HeaderDict.add\<close>\<close>

definition HeaderDict_add :: "headerdict \<Rightarrow> string \<Rightarrow> string \<Rightarrow> headerdict" where
  "HeaderDict_add h key v =
     (let key = HeaderDict_key key in
      case h key of
        Some prior \<Rightarrow>
          (case prior of
             List l \<Rightarrow> h(key \<mapsto> List (l @ [v]))
           | Str p \<Rightarrow> h(key \<mapsto> List [p, v]))
      | None \<Rightarrow> h(key \<mapsto> Str v))"

text \<open>
  \<open>HeaderDict._matches(pattern, value)\<close>. Both arguments are lowercased first, so a
  \<open>None\<close> value raises before the \<open>value is None\<close> test is reached; after
  lowercasing, \<open>value\<close> is a string and that test is false.
\<close>

definition HeaderDict_matches :: "string \<Rightarrow> string option \<Rightarrow> error + bool" where
  "HeaderDict_matches pattern v =
     (let pattern = lower pattern in
      case v of
        None \<Rightarrow> Inl AttributeError
      | Some s \<Rightarrow>
          (let v = lower s in
           Inr (False \<or> pattern = v \<or> startswith pattern (v @ '';''))))"

text \<open>The \<open>for v in value\<close> loop of \<open>HeaderDict.match\<close>.\<close>

fun match_list :: "string list \<Rightarrow> string option \<Rightarrow> error + string option" where
  "match_list [] spec = Inr None"
| "match_list (v # vs) spec =
     (case HeaderDict_matches v spec of
        Inl e \<Rightarrow> Inl e
      | Inr b \<Rightarrow> if b then Inr (Some v) else match_list vs spec)"

text \<open>\<open>HeaderDict.match\<close>; falling off the end returns \<open>None\<close>.\<close>

definition HeaderDict_match :: "headerdict \<Rightarrow> string \<Rightarrow> string option \<Rightarrow> error + string option" where
  "HeaderDict_match h key spec =
     (let key = HeaderDict_key key in
      case h key of
        None \<Rightarrow> Inr None
      | Some (List l) \<Rightarrow> match_list l spec
      | Some (Str s) \<Rightarrow>
          (case HeaderDict_matches s spec of
             Inl e \<Rightarrow> Inl e
           | Inr b \<Rightarrow> if b then Inr (Some s) else Inr None))"

text \<open>The values stored under a name, in order.\<close>

fun values_of :: "hvalue option \<Rightarrow> string list" where
  "values_of None = []"
| "values_of (Some (Str s)) = [s]"
| "values_of (Some (List l)) = l"

text \<open>The semicolon-prefix-or-exact rule, case-insensitive, as a predicate.\<close>

definition semi_match :: "string \<Rightarrow> string \<Rightarrow> bool" where
  "semi_match stored spec =
     (lower stored = lower spec \<or> startswith (lower stored) (lower spec @ '';''))"

section \<open>asyn/http.py: Request, reply side\<close>

datatype filter = SSL | ChunkedCoder | GZipCoder

text \<open>
  The rule sets the code installs. A request has one current rule set, written through
  \<open>self.upstream.scan\<close> and \<open>req.scan\<close> and read through \<open>self.scan\<close>;
  \<open>None\<close> is raw delivery.
\<close>

datatype scan = Scan_headers | Scan_event_tap

record request =
  h_reply :: headerdict
  body_reply :: "string option"
  scan :: "scan option"
  filters :: "filter list"
  p_version :: "string option"
  n_status :: "string option"
  v_status :: "string option"
  closed :: bool

text \<open>
  What the scanner or the connection hands to \<open>Request.incoming\<close>: an error, the
  end of the stream, a match of one of the three header rules, raw bytes, or a match of
  a rule of another rule set (with that rule set, its label and its groups).
\<close>

datatype ctx =
    Ctx_error string
  | Ctx_END
  | Ctx_status string string string
  | Ctx_header string string
  | Ctx_end_headers
  | Ctx_RAW string
  | Ctx_scanned scan string "string list"

text \<open>What \<open>Request.incoming\<close> hands on to the request's callout.\<close>

datatype callout =
    Callout_error string
  | Callout_END
  | Callout_status string
  | Callout_headers headerdict
  | Callout_body string
  | Callout_RAW string
  | Callout_scanned scan string "string list"

text \<open>
  Modelled from the spec: \<open>FilterCallable.insert_filter\<close> is part of the \<open>asyn\<close>
  package, which is not among the sources. Section 4.1: the filter is inserted
  immediately upstream of the given sink. The sink at every call site is
  \<open>Request.incoming\<close>, the consumer at the end of the chain; \<open>filters\<close> lists the
  stages from the connection to the consumer, so the new stage goes last.
\<close>

definition insert_filter :: "filter \<Rightarrow> request \<Rightarrow> request" where
  "insert_filter f r = r\<lparr>filters := filters r @ [f]\<rparr>"

text \<open>Python truthiness of what \<open>match\<close> returns: \<open>None\<close> and \<open>''\<close> are false.\<close>

fun truthy :: "string option \<Rightarrow> bool" where
  "truthy None = False"
| "truthy (Some s) = (s \<noteq> [])"

text \<open>\<open>Request._prepare_body\<close>\<close>

definition Request_prepare_body :: "request \<Rightarrow> error + request" where
  "Request_prepare_body r =
     (let r = r\<lparr>scan := None\<rparr>;
          r = r\<lparr>body_reply := Some []\<rparr>
      in case HeaderDict_match (h_reply r) ''Transfer-Encoding'' (Some ''chunked'') of
           Inl e \<Rightarrow> Inl e
         | Inr m1 \<Rightarrow>
             (let r = (if truthy m1 then insert_filter ChunkedCoder r else r)
              in case HeaderDict_match (h_reply r) ''Content-Encoding'' (Some ''gzip'') of
                   Inl e \<Rightarrow> Inl e
                 | Inr m2 \<Rightarrow>
                     Inr (if truthy m2 then insert_filter GZipCoder r else r)))"

text \<open>
  \<open>Request.incoming\<close>. The \<open>header\<close> branch stores with a plain item assignment
  \<open>self.h_reply[key] = value\<close>; \<open>HeaderDict\<close> does not override item assignment.
  The last branch defers to the base class, which passes the event to the callout.
\<close>

fun Request_incoming :: "request \<Rightarrow> ctx \<Rightarrow> error + request \<times> callout list" where
  "Request_incoming r (Ctx_error e) = Inr (r, [Callout_error e])"
| "Request_incoming r Ctx_END =
     (let r = r\<lparr>closed := True\<rparr> in
      case body_reply r of
        None \<Rightarrow> Inr (r, [Callout_END])
      | Some b \<Rightarrow> Inr (r, [Callout_body b]))"
| "Request_incoming r (Ctx_status p n v) =
     Inr (r\<lparr>p_version := Some p, n_status := Some n, v_status := Some v\<rparr>, [Callout_status n])"
| "Request_incoming r (Ctx_header key v) =
     Inr (r\<lparr>h_reply := (h_reply r)(key \<mapsto> Str v)\<rparr>, [])"
| "Request_incoming r Ctx_end_headers =
     (case Request_prepare_body r of
        Inl e \<Rightarrow> Inl e
      | Inr r \<Rightarrow> Inr (r, [Callout_headers (h_reply r)]))"
| "Request_incoming r (Ctx_RAW d) =
     (if scan r = None then
        (case body_reply r of
           None \<Rightarrow> Inl TypeError
         | Some b \<Rightarrow> Inr (r\<lparr>body_reply := Some (b @ d)\<rparr>, []))
      else Inr (r, [Callout_RAW d]))"
| "Request_incoming r (Ctx_scanned sc label args) = Inr (r, [Callout_scanned sc label args])"

text \<open>Feeding a sequence of events, stopping at the first exception.\<close>

fun incoming_all :: "request \<Rightarrow> ctx list \<Rightarrow> error + request \<times> callout list" where
  "incoming_all r [] = Inr (r, [])"
| "incoming_all r (c # cs) =
     (case Request_incoming r c of
        Inl e \<Rightarrow> Inl e
      | Inr (r', out) \<Rightarrow>
          (case incoming_all r' cs of
             Inl e \<Rightarrow> Inl e
           | Inr (r'', out') \<Rightarrow> Inr (r'', out @ out')))"

text \<open>The two header tests of \<open>_prepare_body\<close>, read off the reply headers.\<close>

definition te_chunked :: "headerdict \<Rightarrow> bool" where
  "te_chunked h = (\<exists>v \<in> set (values_of (h ''Transfer-Encoding'')). semi_match v ''chunked'')"

definition ce_gzip :: "headerdict \<Rightarrow> bool" where
  "ce_gzip h = (\<exists>v \<in> set (values_of (h ''Content-Encoding'')). semi_match v ''gzip'')"

text \<open>A request as \<open>Request.__init__\<close> and \<open>_sendRequest\<close> leave it, before any reply.\<close>

definition new_request :: request where
  "new_request = \<lparr>h_reply = Map.empty, body_reply = None, scan = Some Scan_headers,
     filters = [], p_version = None, n_status = None, v_status = None, closed = False\<rparr>"

section \<open>spy/core.py: constants and helpers\<close>

datatype arm_state = ARM_MOTION | ARM_CONTINUOUS | ARM_ACTIONS

definition ARM_REPORTS :: "(string \<times> arm_state) list" where
  "ARM_REPORTS = [(''M'', ARM_MOTION), (''C'', ARM_CONTINUOUS), (''A'', ARM_ACTIONS)]"

definition TRIGGER_TYPES :: "(string \<times> string) list" where
  "TRIGGER_TYPES = [(''M'', ''recording''), (''A'', ''action'')]"

definition MOTION_CODES :: "(int \<times> string) list" where
  "MOTION_CODES =
     [(1, ''motion''), (2, ''audio''), (4, ''applescript''), (8, ''camera''), (16, ''web''),
      (32, ''crosscamera''), (64, ''manual''), (128, ''human''), (256, ''vehicle'')]"

text \<open>
  \<open>motions(codes)\<close>: the names of the codes whose bit is set; an empty selection is
  replaced by \<open>["motion"]\<close> before the set is built.
\<close>

definition motions :: "int \<Rightarrow> string set" where
  "motions codes =
     (let l = map snd (filter (\<lambda>(code, nm). code AND codes \<noteq> 0) MOTION_CODES)
      in set (if l = [] then [''motion''] else l))"

text \<open>The reason names whose code bit is set in a bitmask, with no replacement.\<close>

definition reason_names :: "int \<Rightarrow> string set" where
  "reason_names codes = set (map snd (filter (\<lambda>(code, nm). code AND codes \<noteq> 0) MOTION_CODES))"

text \<open>A subscript \<open>d[k]\<close> of a constant table: \<open>KeyError\<close> on a missing key.\<close>

definition subscript :: "('k \<times> 'v) list \<Rightarrow> 'k \<Rightarrow> error + 'v" where
  "subscript d k = (case map_of d k of None \<Rightarrow> Inl KeyError | Some v \<Rightarrow> Inr v)"

text \<open>
  \<open>int(s)\<close> on text: an optional sign and decimal digits, \<open>ValueError\<close> otherwise.
  The event grammar only passes digit groups (\<open>\d+\<close>, \<open>[0-9]+\<close>) here.
\<close>

definition digit_of :: "char \<Rightarrow> nat option" where
  "digit_of c = map_of (zip ''0123456789'' [0, 1, 2, 3, 4, 5, 6, 7, 8, 9]) c"

fun digits_value :: "string \<Rightarrow> nat \<Rightarrow> nat option" where
  "digits_value [] acc = Some acc"
| "digits_value (c # cs) acc =
     (case digit_of c of None \<Rightarrow> None | Some d \<Rightarrow> digits_value cs (10 * acc + d))"

definition py_int :: "string \<Rightarrow> error + int" where
  "py_int s =
     (case s of
        [] \<Rightarrow> Inl ValueError
      | c # cs \<Rightarrow>
          if c = CHR ''-'' \<or> c = CHR ''+'' then
            (if cs = [] then Inl ValueError
             else case digits_value cs 0 of
                    None \<Rightarrow> Inl ValueError
                  | Some n \<Rightarrow> Inr (if c = CHR ''-'' then - int n else int n))
          else (case digits_value s 0 of
                  None \<Rightarrow> Inl ValueError
                | Some n \<Rightarrow> Inr (int n)))"

text \<open>Insertion-ordered dictionaries: item assignment and \<open>del\<close>.\<close>

fun dict_set :: "('k \<times> 'v) list \<Rightarrow> 'k \<Rightarrow> 'v \<Rightarrow> ('k \<times> 'v) list" where
  "dict_set [] k v = [(k, v)]"
| "dict_set (p # ps) k v = (if fst p = k then (k, v) # ps else p # dict_set ps k v)"

definition dict_del :: "('k \<times> 'v) list \<Rightarrow> 'k \<Rightarrow> error + ('k \<times> 'v) list" where
  "dict_del d k =
     (case map_of d k of
        None \<Rightarrow> Inl KeyError
      | Some _ \<Rightarrow> Inr (filter (\<lambda>p. fst p \<noteq> k) d))"

text \<open>\<open>classify(form)\<close>: whitespace-separated key/value pairs, keys lowercased.\<close>

definition is_space :: "char \<Rightarrow> bool" where
  "is_space c = (c \<in> set [CHR '' '', CHR 0x09, CHR 0x0A, CHR 0x0B, CHR 0x0C, CHR 0x0D])"

fun split_ws :: "string \<Rightarrow> string \<Rightarrow> string list" where
  "split_ws [] w = (if w = [] then [] else [w])"
| "split_ws (c # cs) w =
     (if is_space c then (if w = [] then split_ws cs [] else w # split_ws cs [])
      else split_ws cs (w @ [c]))"

fun pairs :: "'a list \<Rightarrow> ('a \<times> 'a) list" where
  "pairs (a # b # rest) = (a, b) # pairs rest"
| "pairs _ = []"

fun classify_pairs :: "(string \<times> string) list \<Rightarrow> (string \<times> int) list \<Rightarrow> error + (string \<times> int) list" where
  "classify_pairs [] d = Inr d"
| "classify_pairs ((k, v) # rest) d =
     (case py_int v of
        Inl e \<Rightarrow> Inl e
      | Inr n \<Rightarrow> classify_pairs rest (dict_set d (lower k) n))"

definition classify :: "string \<Rightarrow> error + (string \<times> int) list" where
  "classify form = classify_pairs (pairs (split_ws form [])) []"

section \<open>spy/core.py: cameras and the server object\<close>

text \<open>The \<open>armed\<close> dictionary of a camera: always the three arm states as keys.\<close>

record armed_dict =
  MotionCapture :: bool
  ContinuousCapture :: bool
  Actions :: bool

fun set_armed :: "arm_state \<Rightarrow> bool \<Rightarrow> armed_dict \<Rightarrow> armed_dict" where
  "set_armed ARM_MOTION b a = a\<lparr>MotionCapture := b\<rparr>"
| "set_armed ARM_CONTINUOUS b a = a\<lparr>ContinuousCapture := b\<rparr>"
| "set_armed ARM_ACTIONS b a = a\<lparr>Actions := b\<rparr>"

text \<open>
  A \<open>Camera\<close> object, with the fields \<open>Camera.__init__\<close> fills from one element of
  the camera list (\<open>size\<close> and \<open>type\<close> are spelled \<open>size_wh\<close> and \<open>devtype\<close>).
\<close>

record camera =
  number :: int
  name :: "string option"
  connected :: bool
  size_wh :: "int option \<times> int option"
  armed :: armed_dict
  classifications :: "(string \<times> int) list"
  audio :: bool
  device :: "string option"
  ptz_capabilities :: "int option"
  sensitivity :: "int option"
  devtype :: "string option"
  location :: "(string option \<times> int option) option"

text \<open>Callouts made on a camera object, and everything the server object does outward.\<close>

datatype cam_callout =
    Removed
  | Status
  | Trigger string "string set"
  | Classify "(string \<times> int) list"
  | Tap string "string list"

datatype effect =
    Open_request nat string
  | Close_request nat
  | Spy_error string
  | Spy_status_error "string option" "string option"
  | Spy_event_tap "string option"
  | Spy_added nat
  | Spy_ready "(int \<times> nat) list"
  | Cam nat cam_callout

text \<open>
  The \<open>SecuritySpy\<close> object. Camera objects live in a store (\<open>heap\<close>) and the
  \<open>cameras\<close> dictionary maps a camera number to the address of its object, so that
  replacing an object and changing it in place are different things. Requests are
  objects in a store of their own; \<open>events\<close> is \<open>self._events\<close>.
\<close>

record spy =
  cameras :: "(int \<times> nat) list"
  heap :: "nat \<Rightarrow> camera"
  next_ref :: nat
  events :: "nat option"
  reqs :: "nat \<Rightarrow> request"
  next_req :: nat
  server :: "string option"
  version :: "string option"

text \<open>
  What \<open>ET.fromstring\<close> and the \<open>Camera\<close> constructor make of the reply body:
  an exception raised by the parser (its class and its message), or the server's name
  and version and the camera objects built from the elements of the camera list, in
  document order.
\<close>

datatype system_info =
    Malformed error string
  | System_info "string option" "string option" "camera list"

text \<open>
  \<open>SecuritySpy._request\<close>: a new \<open>Request\<close> object for a path. Address resolution
  and connecting belong to the reactor and are taken to succeed.
\<close>

definition spy_request :: "spy \<Rightarrow> string \<Rightarrow> spy \<times> nat \<times> effect list" where
  "spy_request s path =
     (let req = next_req s
      in (s\<lparr>reqs := (reqs s)(req := new_request), next_req := req + 1\<rparr>,
          req, [Open_request req path]))"

text \<open>\<open>SecuritySpy.update\<close>: start a full-state fetch.\<close>

definition update :: "spy \<Rightarrow> spy \<times> effect list" where
  "update s = (case spy_request s ''/++systemInfo'' of (s, req, out) \<Rightarrow> (s, out))"

text \<open>\<open>SecuritySpy._fetch_list\<close>\<close>

definition fetch_list :: "string \<Rightarrow> spy \<Rightarrow> spy \<times> effect list" where
  "fetch_list nm s = (case spy_request s (''/++'' @ nm) of (s, req, out) \<Rightarrow> (s, out))"

text \<open>\<open>SecuritySpy._close_events\<close>\<close>

definition close_events :: "spy \<Rightarrow> spy \<times> effect list" where
  "close_events s =
     (case events s of
        Some e \<Rightarrow> (s\<lparr>reqs := (reqs s)(e := (reqs s e)\<lparr>closed := True\<rparr>), events := None\<rparr>,
                   [Close_request e])
      | None \<Rightarrow> (s, []))"

text \<open>\<open>SecuritySpy._event_stream\<close>: the statement after the nested \<open>reply\<close>.\<close>

definition event_stream :: "spy \<Rightarrow> spy \<times> effect list" where
  "event_stream s =
     (case spy_request s ''/++eventStream?version=2'' of
        (s, req, out) \<Rightarrow> (s\<lparr>events := Some req\<rparr>, out))"

text \<open>\<open>Camera._refresh\<close> on the object itself: the merged object and the change flag.\<close>

definition Camera_refresh :: "camera \<Rightarrow> camera \<Rightarrow> camera \<times> bool" where
  "Camera_refresh self upd =
     (let change = (armed self \<noteq> armed upd
                    \<or> connected self \<noteq> connected upd
                    \<or> sensitivity self \<noteq> sensitivity upd)
      in (self\<lparr>name := name upd, size_wh := size_wh upd, connected := connected upd,
               armed := armed upd, sensitivity := sensitivity upd\<rparr>, change))"

text \<open>\<open>Camera._refresh\<close> on the object at an address, with its callout.\<close>

definition refresh_at :: "spy \<Rightarrow> nat \<Rightarrow> camera \<Rightarrow> spy \<times> effect list" where
  "refresh_at s r upd =
     (case Camera_refresh (heap s r) upd of
        (self, change) \<Rightarrow>
          (s\<lparr>heap := (heap s)(r := self)\<rparr>, if change then [Cam r Status] else []))"

text \<open>
  The first loop of \<open>SecuritySpy._configure\<close>, over the camera list. The object built
  for a number that is already known is only read from; the object built for a new
  number is stored at a fresh address.
\<close>

fun configure_cameras ::
  "camera list \<Rightarrow> spy \<Rightarrow> (int \<times> nat) list \<Rightarrow> error + spy \<times> (int \<times> nat) list \<times> effect list" where
  "configure_cameras [] s old_cameras = Inr (s, old_cameras, [])"
| "configure_cameras (c # cs) s old_cameras =
     (case map_of (cameras s) (number c) of
        Some r \<Rightarrow>
          (case refresh_at s r c of
             (s1, out1) \<Rightarrow>
               (case dict_del old_cameras (number c) of
                  Inl e \<Rightarrow> Inl e
                | Inr old1 \<Rightarrow>
                    (case configure_cameras cs s1 old1 of
                       Inl e \<Rightarrow> Inl e
                     | Inr (s2, old2, out2) \<Rightarrow> Inr (s2, old2, out1 @ out2))))
      | None \<Rightarrow>
          (let r = next_ref s;
               s1 = s\<lparr>heap := (heap s)(r := c), next_ref := r + 1,
                      cameras := dict_set (cameras s) (number c) r\<rparr>
           in case configure_cameras cs s1 old_cameras of
                Inl e \<Rightarrow> Inl e
              | Inr (s2, old2, out2) \<Rightarrow> Inr (s2, old2, Spy_added r # out2)))"

text \<open>The second loop: the cameras that disappeared.\<close>

fun remove_cameras :: "(int \<times> nat) list \<Rightarrow> spy \<Rightarrow> error + spy \<times> effect list" where
  "remove_cameras [] s = Inr (s, [])"
| "remove_cameras ((cnum, r) # rest) s =
     (case dict_del (cameras s) cnum of
        Inl e \<Rightarrow> Inl e
      | Inr cams \<Rightarrow>
          (case remove_cameras rest (s\<lparr>cameras := cams\<rparr>) of
             Inl e \<Rightarrow> Inl e
           | Inr (s', out) \<Rightarrow> Inr (s', Cam r Removed # out)))"

text \<open>The event tap is installed, and the two lists fetched, when no tap is live.\<close>

definition install_tap :: "spy \<Rightarrow> spy \<times> effect list" where
  "install_tap s =
     (case event_stream s of
        (s, out1) \<Rightarrow>
          (case fetch_list ''scripts'' s of
             (s, out2) \<Rightarrow>
               (case fetch_list ''sounds'' s of
                  (s, out3) \<Rightarrow> (s, out1 @ out2 @ out3))))"

text \<open>
  \<open>SecuritySpy._configure\<close>. The \<open>try\<close> around the parser handles
  \<open>ExpatError\<close> only; any other exception leaves the function.
\<close>

definition SecuritySpy_configure :: "spy \<Rightarrow> system_info \<Rightarrow> error + spy \<times> effect list" where
  "SecuritySpy_configure s info =
     (case info of
        Malformed x e \<Rightarrow> (if x = ExpatError then Inr (s, [Spy_error e]) else Inl x)
      | System_info nm ver cams \<Rightarrow>
          (let s = s\<lparr>server := nm, version := ver\<rparr>
           in case (if events s = None then install_tap s else (s, [])) of
                (s, out1) \<Rightarrow>
                  (let old_cameras = cameras s
                   in case configure_cameras cams s old_cameras of
                        Inl e \<Rightarrow> Inl e
                      | Inr (s, old_cameras, out2) \<Rightarrow>
                          (case remove_cameras old_cameras s of
                             Inl e \<Rightarrow> Inl e
                           | Inr (s, out3) \<Rightarrow>
                               Inr (s, out1 @ out2 @ out3 @ [Spy_ready (cameras s)])))))"


section \<open>spy/core.py: the event tap\<close>

text \<open>
  \<open>Camera._event_tap(ctx, *args)\<close> for the camera object at address \<open>r\<close>;
  \<open>label\<close> is \<open>ctx.state\<close>. The branches \<open>classify\<close> and \<open>trigger\<close> return
  from inside; the others fall through to the closing \<open>self.callout(ctx, *args)\<close>.
\<close>

definition Camera_event_tap ::
  "spy \<Rightarrow> nat \<Rightarrow> string \<Rightarrow> string list \<Rightarrow> error + spy \<times> effect list" where
  "Camera_event_tap s r label args =
     (let self = heap s r;
          put = (\<lambda>c. s\<lparr>heap := (heap s)(r := c)\<rparr>);
          arm = (\<lambda>b. case args of
                   [] \<Rightarrow> Inl IndexError
                 | a # _ \<Rightarrow>
                     (case subscript ARM_REPORTS a of
                        Inl e \<Rightarrow> Inl e
                      | Inr k \<Rightarrow>
                          Inr (put (self\<lparr>armed := set_armed k b (armed self)\<rparr>),
                               [Cam r (Tap label args)])))
      in if label = ''active'' then
           Inr (put (self\<lparr>armed := set_armed ARM_MOTION True (armed self)\<rparr>),
                [Cam r (Tap label args)])
         else if label = ''passive'' then
           Inr (put (self\<lparr>armed := set_armed ARM_MOTION False (armed self)\<rparr>),
                [Cam r (Tap label args)])
         else if label = ''arm'' then arm True
         else if label = ''disarm'' then arm False
         else if label = ''classify'' then
           (case args of
              [] \<Rightarrow> Inl IndexError
            | a # _ \<Rightarrow>
                (case classify a of
                   Inl e \<Rightarrow> Inl e
                 | Inr d \<Rightarrow> Inr (put (self\<lparr>classifications := d\<rparr>), [Cam r (Classify d)])))
         else if label = ''trigger'' then
           (case args of
              [ty, reasons] \<Rightarrow>
                (case subscript TRIGGER_TYPES ty of
                   Inl e \<Rightarrow> Inl e
                 | Inr t \<Rightarrow>
                     (case py_int reasons of
                        Inl e \<Rightarrow> Inl e
                      | Inr n \<Rightarrow> Inr (s, [Cam r (Trigger t (motions n))])))
            | _ \<Rightarrow> Inl ValueError)
         else if label = ''online'' then
           Inr (put (self\<lparr>connected := True\<rparr>), [Cam r (Tap label args)])
         else if label = ''offline'' then
           (case update s of
              (s1, out) \<Rightarrow>
                Inr (s1\<lparr>heap := (heap s1)(r := (heap s1 r)\<lparr>connected := False\<rparr>)\<rparr>,
                     out @ [Cam r (Tap label args)]))
         else Inr (s, [Cam r (Tap label args)]))"

text \<open>
  The nested \<open>reply\<close> of \<open>SecuritySpy._event_stream\<close>: the callout of the event-tap
  request \<open>req\<close>, fed with what \<open>Request.incoming\<close> hands on. A scanned record counts
  as an event-tap record when its rule set is the event-tap grammar.
\<close>

definition event_stream_reply :: "spy \<Rightarrow> nat \<Rightarrow> callout \<Rightarrow> error + spy \<times> effect list" where
  "event_stream_reply s req c =
     (case c of
        Callout_error e \<Rightarrow>
          (case close_events s of (s, out) \<Rightarrow> Inr (s, out @ [Spy_error e]))
      | Callout_headers h \<Rightarrow>
          (if n_status (reqs s req) = Some ''200'' then
             Inr (s\<lparr>reqs := (reqs s)(req := (reqs s req)\<lparr>scan := Some Scan_event_tap\<rparr>)\<rparr>,
                  [Spy_event_tap (n_status (reqs s req))])
           else
             (case close_events s of
                (s1, out) \<Rightarrow>
                  Inr (s1, [Spy_event_tap (n_status (reqs s req))] @ out
                         @ [Spy_status_error (n_status (reqs s1 req)) (v_status (reqs s1 req))])))
      | Callout_body b \<Rightarrow>
          (case close_events s of
             (s1, out1) \<Rightarrow>
               (case event_stream s1 of (s2, out2) \<Rightarrow> Inr (s2, out1 @ out2)))
      | Callout_scanned sc label args \<Rightarrow>
          (if sc = Scan_event_tap then
             (if label = ''unknown'' then
                (case args of
                   [a] \<Rightarrow> Inr (s, [Spy_error (''unknown event tap ('' @ a @ '')'')])
                 | _ \<Rightarrow> Inl TypeError)
              else if label = ''change'' then
                (case update s of (s, out) \<Rightarrow> Inr (s, out))
              else
                (case args of
                   ts # sq # cn # rest \<Rightarrow>
                     (case py_int sq of
                        Inl e \<Rightarrow> Inl e
                      | Inr spy_seq \<Rightarrow>
                          (case py_int cn of
                             Inl e \<Rightarrow> Inl e
                           | Inr cnum \<Rightarrow>
                               (case map_of (cameras s) cnum of
                                  None \<Rightarrow> (case update s of (s, out) \<Rightarrow> Inr (s, out))
                                | Some r \<Rightarrow> Camera_event_tap s r label rest)))
                 | _ \<Rightarrow> Inl IndexError))
           else Inr (s, []))
      | _ \<Rightarrow> Inr (s, []))"

text \<open>
  The peer closing the event-tap connection \<open>n\<close> times in a row: each time the body
  completion is delivered to the callout of the request that is live then.
\<close>

fun peer_closes :: "nat \<Rightarrow> spy \<Rightarrow> error + spy \<times> effect list" where
  "peer_closes 0 s = Inr (s, [])"
| "peer_closes (Suc n) s =
     (case events s of
        None \<Rightarrow> Inr (s, [])
      | Some req \<Rightarrow>
          (case event_stream_reply s req (Callout_body []) of
             Inl e \<Rightarrow> Inl e
           | Inr (s1, out1) \<Rightarrow>
               (case peer_closes n s1 of
                  Inl e \<Rightarrow> Inl e
                | Inr (s2, out2) \<Rightarrow> Inr (s2, out1 @ out2))))"

section \<open>Predicates used in the statements\<close>

text \<open>
  The state of a server object as the code builds it: one entry per camera number,
  one object per entry, every object at an allocated address.
\<close>

definition wf :: "spy \<Rightarrow> bool" where
  "wf s = (distinct (map fst (cameras s)) \<and> distinct (map snd (cameras s))
           \<and> list_all (\<lambda>p. snd p < next_ref s) (cameras s))"

definition is_open :: "effect \<Rightarrow> bool" where
  "is_open e = (case e of Open_request _ _ \<Rightarrow> True | _ \<Rightarrow> False)"

definition is_ready :: "effect \<Rightarrow> bool" where
  "is_ready e = (case e of Spy_ready _ \<Rightarrow> True | _ \<Rightarrow> False)"

text \<open>The added, removed and status notifications.\<close>

definition is_change :: "effect \<Rightarrow> bool" where
  "is_change e =
     (case e of Spy_added _ \<Rightarrow> True | Cam _ Removed \<Rightarrow> True | Cam _ Status \<Rightarrow> True | _ \<Rightarrow> False)"

text \<open>What reaches a camera object or the error channel.\<close>

definition is_cam :: "effect \<Rightarrow> bool" where
  "is_cam e = (case e of Cam _ _ \<Rightarrow> True | _ \<Rightarrow> False)"

definition is_error :: "effect \<Rightarrow> bool" where
  "is_error e = (case e of Spy_error _ \<Rightarrow> True | Spy_status_error _ _ \<Rightarrow> True | _ \<Rightarrow> False)"


section \<open>Auxiliary notions for the reconciliation\<close>

text \<open>
  A camera object agrees with a freshly built one on the fields \<open>_refresh\<close> copies;
  \<open>merged_at\<close> and \<open>inserted\<close> are the two state changes of the first loop of
  \<open>_configure\<close>, \<open>status_for\<close> the callout of the first.
\<close>

definition agrees :: "camera \<Rightarrow> camera \<Rightarrow> bool" where
  "agrees self c = (name self = name c \<and> size_wh self = size_wh c
     \<and> connected self = connected c \<and> armed self = armed c
     \<and> sensitivity self = sensitivity c)"

definition merged_at :: "spy \<Rightarrow> nat \<Rightarrow> camera \<Rightarrow> spy" where
  "merged_at s r c = s\<lparr>heap := (heap s)(r := fst (Camera_refresh (heap s r) c))\<rparr>"

definition inserted :: "spy \<Rightarrow> camera \<Rightarrow> spy" where
  "inserted s c = s\<lparr>heap := (heap s)(next_ref s := c), next_ref := next_ref s + 1,
      cameras := dict_set (cameras s) (number c) (next_ref s)\<rparr>"

definition status_for :: "spy \<Rightarrow> nat \<Rightarrow> camera \<Rightarrow> effect list" where
  "status_for s r c = (if snd (Camera_refresh (heap s r) c) then [Cam r Status] else [])"

text \<open>The only callouts of the first loop are \<open>added\<close> and \<open>status\<close>.\<close>

definition loop_effect :: "effect \<Rightarrow> bool" where
  "loop_effect e = (case e of Spy_added _ \<Rightarrow> True | Cam _ Status \<Rightarrow> True | _ \<Rightarrow> False)"

text \<open>
  The part of \<open>_configure\<close> before the loops, and the callouts of the second loop.
\<close>

definition prepared :: "spy \<Rightarrow> string option \<Rightarrow> string option \<Rightarrow> spy \<times> effect list" where
  "prepared s nm ver =
     (let s = s\<lparr>server := nm, version := ver\<rparr>
      in if events s = None then install_tap s else (s, []))"

definition removed_for :: "(int \<times> nat) list \<Rightarrow> effect list" where
  "removed_for old = map (\<lambda>p. Cam (snd p) Removed) old"

section \<open>Concrete inputs\<close>

text \<open>
  The item assignments of the \<open>header\<close> branch of \<open>Request.incoming\<close> for the
  header lines of a reply, in arrival order.
\<close>

fun assign_headers :: "headerdict \<Rightarrow> (string \<times> string) list \<Rightarrow> headerdict" where
  "assign_headers h [] = h"
| "assign_headers h ((k, v) # hs) = assign_headers (h(k \<mapsto> Str v)) hs"

text \<open>A header map that declares both chunked transfer coding and gzip content coding.\<close>

definition both_reply :: request where
  "both_reply = new_request\<lparr>h_reply := Map.empty(''Transfer-Encoding'' \<mapsto> Str ''Chunked'',
       ''Content-Encoding'' \<mapsto> Str ''gzip'')\<rparr>"

text \<open>
  A server object with cameras 1, 2 and 3 and a live event tap (request 0).
\<close>

definition mk_camera :: "int \<Rightarrow> camera" where
  "mk_camera n = \<lparr>number = n, name = Some ''cam'', connected = True,
     size_wh = (Some 640, Some 480),
     armed = \<lparr>MotionCapture = True, ContinuousCapture = False, Actions = True\<rparr>,
     classifications = [], audio = False, device = None, ptz_capabilities = Some 0,
     sensitivity = Some 50, devtype = Some ''Network'', location = None\<rparr>"

definition live123 :: spy where
  "live123 = \<lparr>cameras = [(1, 0), (2, 1), (3, 2)],
     heap = (\<lambda>r. mk_camera (int r + 1)),
     next_ref = 3, events = Some 0,
     reqs = (\<lambda>r. new_request\<lparr>n_status := Some ''200''\<rparr>), next_req = 1,
     server = Some ''spy'', version = Some ''5.0''\<rparr>"

text \<open>
  A snapshot with cameras 2, 3 and 4, camera 3 now disconnected.
\<close>

definition snap234 :: "camera list" where
  "snap234 = [mk_camera 2, (mk_camera 3)\<lparr>connected := False\<rparr>, mk_camera 4]"

section \<open>HeaderDict: matching\<close>

lemmas str_eval = HeaderDict_key_def lower_def lower_char_def upper_char_def
  semi_match_def startswith_def

lemma matches_Some: "HeaderDict_matches p (Some s) = Inr (semi_match p s)"
  by (simp add: HeaderDict_matches_def semi_match_def Let_def)

lemma matches_None: "HeaderDict_matches p None = Inl AttributeError"
  by (simp add: HeaderDict_matches_def Let_def)

lemma match_list_find: "match_list l (Some spec) = Inr (find (\<lambda>v. semi_match v spec) l)"
  by (induction l) (simp_all add: matches_Some)

text \<open>With a spec, \<open>match\<close> returns the first stored value that satisfies the rule.\<close>

lemma match_find:
  "HeaderDict_match h key (Some spec) =
     Inr (find (\<lambda>v. semi_match v spec) (values_of (h (HeaderDict_key key))))"
  by (simp add: HeaderDict_match_def Let_def match_list_find matches_Some
      split: option.splits hvalue.splits)

lemma find_Some_ex: "(\<exists>v. find P l = Some v) \<longleftrightarrow> (\<exists>v\<in>set l. P v)"
  by (induction l) auto

lemma find_SomeD: "find P l = Some v \<Longrightarrow> v \<in> set l \<and> P v"
  by (induction l) (auto split: if_splits)

text \<open>
  Claim C7. For every header map, key and spec string, \<open>match\<close> returns a stored value
  exactly when some value stored under the canonical form of the key equals the spec
  case-insensitively or, lowercased, starts with the lowercased spec followed by a
  semicolon; the value returned is such a stored value, and no exception is raised.
\<close>

theorem match_semicolon_prefix_or_exact:
  "((\<exists>v. HeaderDict_match h key (Some spec) = Inr (Some v)) \<longleftrightarrow>
      (\<exists>v \<in> set (values_of (h (HeaderDict_key key))). semi_match v spec))
   \<and> (\<forall>v. HeaderDict_match h key (Some spec) = Inr (Some v) \<longrightarrow>
          v \<in> set (values_of (h (HeaderDict_key key))) \<and> semi_match v spec)
   \<and> HeaderDict_match h key (Some spec) \<noteq> Inl e"
  by (auto simp: match_find find_Some_ex dest: find_SomeD)

theorem match_semicolon_prefix_or_exact_witness:
  "(\<exists>v \<in> set (values_of ((Map.empty(''Transfer-Encoding'' \<mapsto> Str ''gzip''))
        (HeaderDict_key ''transfer-encoding''))). semi_match v ''GZIP'')
   \<and> HeaderDict_match (Map.empty(''Transfer-Encoding'' \<mapsto> Str ''gzip''))
        ''transfer-encoding'' (Some ''GZIP'') = Inr (Some ''gzip'')"
proof -
  let ?h = "Map.empty(''Transfer-Encoding'' \<mapsto> Str ''gzip'')"
  have k: "HeaderDict_key ''transfer-encoding'' = ''Transfer-Encoding''"
    by (simp add: str_eval)
  have s: "semi_match ''gzip'' ''GZIP''"
    by (simp add: str_eval)
  have ex: "\<exists>v \<in> set (values_of (?h (HeaderDict_key ''transfer-encoding''))). semi_match v ''GZIP''"
    using s by (simp add: k)
  from match_semicolon_prefix_or_exact [of ?h "''transfer-encoding''" "''GZIP''" AttributeError] ex
  obtain v where v: "HeaderDict_match ?h ''transfer-encoding'' (Some ''GZIP'') = Inr (Some v)"
    and "v \<in> set (values_of (?h (HeaderDict_key ''transfer-encoding'')))"
    by blast
  then have "v = ''gzip''" by (simp add: k)
  with v ex show ?thesis by simp
qed

text \<open>
  Claim C10. Calling \<open>match\<close> with the key alone (spec \<open>None\<close>) on a key whose
  canonical form has an entry raises \<open>AttributeError\<close>: the first stored value is
  handed to \<open>_matches\<close>, which lowercases the spec before it tests it for \<open>None\<close>.
  An entry is a string or a non-empty list; \<open>add\<close> and item assignment build no other.
\<close>

theorem match_default_spec_raises:
  "h (HeaderDict_key key) = Some v \<Longrightarrow> v \<noteq> List [] \<Longrightarrow>
     HeaderDict_match h key None = Inl AttributeError"
  by (cases v; cases "case v of List l \<Rightarrow> l | _ \<Rightarrow> []")
     (simp_all add: HeaderDict_match_def matches_None)

theorem match_default_spec_raises_witness:
  "(Map.empty(''Content-Type'' \<mapsto> Str ''text/xml'')) (HeaderDict_key ''content-type'')
      = Some (Str ''text/xml'')
   \<and> Str ''text/xml'' \<noteq> List []
   \<and> HeaderDict_match (Map.empty(''Content-Type'' \<mapsto> Str ''text/xml'')) ''content-type'' None
      = Inl AttributeError"
proof -
  have k: "(Map.empty(''Content-Type'' \<mapsto> Str ''text/xml'')) (HeaderDict_key ''content-type'')
      = Some (Str ''text/xml'')"
    by (simp add: str_eval)
  have n: "Str ''text/xml'' \<noteq> List []" by simp
  from match_default_spec_raises
      [of "Map.empty(''Content-Type'' \<mapsto> Str ''text/xml'')" "''content-type''" "Str ''text/xml''", OF k n]
    k n
  show ?thesis by simp
qed

section \<open>HeaderDict: adding, and the reply headers\<close>

text \<open>\<open>add\<close> appends to the values stored under the canonical name and touches no other.\<close>

lemma add_accumulates:
  "values_of (HeaderDict_add h key v (HeaderDict_key key)) = values_of (h (HeaderDict_key key)) @ [v]"
  by (simp add: HeaderDict_add_def Let_def split: option.splits hvalue.splits)

lemma add_other:
  "k \<noteq> HeaderDict_key key \<Longrightarrow> HeaderDict_add h key v k = h k"
  by (simp add: HeaderDict_add_def Let_def split: option.splits hvalue.splits)

lemma add_no_empty_list:
  "\<forall>k. h k \<noteq> Some (List []) \<Longrightarrow> HeaderDict_add h key v k \<noteq> Some (List [])"
  by (simp add: HeaderDict_add_def Let_def split: option.splits hvalue.splits)

text \<open>
  Claim C1, on the code. A reply that carries \<open>Set-Cookie\<close> twice leaves only the second
  value in the reply header map, since \<open>Request.incoming\<close> stores by item assignment;
  \<open>HeaderDict.add\<close>, used for the request headers, keeps both values in arrival order.
\<close>

theorem reply_header_overwrites:
  "\<exists>r. incoming_all new_request [Ctx_header ''Set-Cookie'' ''a=1'', Ctx_header ''Set-Cookie'' ''b=2'']
          = Inr (r, [])
       \<and> values_of (h_reply r (HeaderDict_key ''Set-Cookie'')) = [''b=2'']
       \<and> values_of (HeaderDict_add (HeaderDict_add Map.empty ''Set-Cookie'' ''a=1'')
             ''Set-Cookie'' ''b=2'' (HeaderDict_key ''Set-Cookie'')) = [''a=1'', ''b=2'']"
  by (simp add: new_request_def add_accumulates) (simp add: str_eval)

text \<open>
  The item assignment also bypasses the canonical form of the name: a reply header
  written in lower case is stored under that spelling and is not found by \<open>match\<close>.
\<close>

lemma reply_header_key_not_canonical:
  "\<exists>r. incoming_all new_request [Ctx_header ''transfer-encoding'' ''chunked'', Ctx_end_headers]
          = Inr (r, [Callout_headers (h_reply r)])
       \<and> filters r = []
       \<and> HeaderDict_match (h_reply r) ''Transfer-Encoding'' (Some ''chunked'') = Inr None"
  by (simp add: new_request_def Request_prepare_body_def HeaderDict_match_def Let_def)
     (simp add: str_eval)

section \<open>Request: body framing\<close>

lemma semi_match_nonempty: "semi_match v spec \<Longrightarrow> spec \<noteq> [] \<Longrightarrow> v \<noteq> []"
  by (auto simp: semi_match_def lower_def startswith_def)

lemma truthy_find:
  "spec \<noteq> [] \<Longrightarrow> truthy (find (\<lambda>v. semi_match v spec) l) = (\<exists>v\<in>set l. semi_match v spec)"
  by (induction l) (auto dest: semi_match_nonempty)

lemma key_Transfer_Encoding: "HeaderDict_key ''Transfer-Encoding'' = ''Transfer-Encoding''"
  by (simp add: str_eval)

lemma key_Content_Encoding: "HeaderDict_key ''Content-Encoding'' = ''Content-Encoding''"
  by (simp add: str_eval)

text \<open>
  \<open>_prepare_body\<close> on any request: it clears the scan rule set and starts an empty
  body; it inserts the chunked decoder upstream of the consumer exactly when a value
  stored under \<open>Transfer-Encoding\<close> matches \<open>chunked\<close>, and, independently, the
  decompression filter exactly when a value stored under \<open>Content-Encoding\<close> matches
  \<open>gzip\<close>; when both apply the chunked decoder comes first in the chain.
\<close>

lemma prepare_body_framing:
  "Request_prepare_body r =
     Inr (r\<lparr>scan := None, body_reply := Some [],
            filters := filters r
              @ (if te_chunked (h_reply r) then [ChunkedCoder] else [])
              @ (if ce_gzip (h_reply r) then [GZipCoder] else [])\<rparr>)"
  by (simp add: Request_prepare_body_def Let_def match_find truthy_find insert_filter_def
      key_Transfer_Encoding key_Content_Encoding te_chunked_def ce_gzip_def)

lemma prepare_body_framing_both:
  "te_chunked (h_reply both_reply) \<and> ce_gzip (h_reply both_reply)
   \<and> Request_prepare_body both_reply =
       Inr (both_reply\<lparr>scan := None, body_reply := Some [], filters := [ChunkedCoder, GZipCoder]\<rparr>)"
proof -
  have t: "te_chunked (h_reply both_reply)"
    by (simp add: both_reply_def te_chunked_def str_eval)
  have c: "ce_gzip (h_reply both_reply)"
    by (simp add: both_reply_def ce_gzip_def str_eval)
  have f: "filters both_reply = []"
    by (simp add: both_reply_def new_request_def)
  from prepare_body_framing [of both_reply] t c f show ?thesis by simp
qed

text \<open>
  The reply path as a whole: the header lines of a reply followed by the blank line.
  The headers are stored by item assignment, under the names as received and the last
  value of each, and the framing is decided on that map.
\<close>

lemma incoming_all_header:
  "incoming_all r (Ctx_header k v # cs) =
     incoming_all (r\<lparr>h_reply := (h_reply r)(k \<mapsto> Str v)\<rparr>) cs"
  by (simp split: sum.splits prod.splits)

lemma incoming_all_end_headers:
  "incoming_all r [Ctx_end_headers] =
     Inr (r\<lparr>scan := None, body_reply := Some [],
            filters := filters r
              @ (if te_chunked (h_reply r) then [ChunkedCoder] else [])
              @ (if ce_gzip (h_reply r) then [GZipCoder] else [])\<rparr>,
          [Callout_headers (h_reply r)])"
  by (simp add: prepare_body_framing)

lemma reply_path_framing:
  "incoming_all r (map (\<lambda>(k, v). Ctx_header k v) hs @ [Ctx_end_headers]) =
     Inr (r\<lparr>h_reply := assign_headers (h_reply r) hs, scan := None, body_reply := Some [],
            filters := filters r
              @ (if te_chunked (assign_headers (h_reply r) hs) then [ChunkedCoder] else [])
              @ (if ce_gzip (assign_headers (h_reply r) hs) then [GZipCoder] else [])\<rparr>,
          [Callout_headers (assign_headers (h_reply r) hs)])"
proof (induction hs arbitrary: r)
  case Nil
  have "r\<lparr>h_reply := h_reply r\<rparr> = r" by simp
  then show ?case by (simp only: list.map append_Nil assign_headers.simps incoming_all_end_headers)
next
  case (Cons a hs)
  obtain k v where a: "a = (k, v)" by (cases a) auto
  let ?r1 = "r\<lparr>h_reply := (h_reply r)(k \<mapsto> Str v)\<rparr>"
  have h1: "h_reply ?r1 = (h_reply r)(k \<mapsto> Str v)" and f1: "filters ?r1 = filters r"
    by simp_all
  have u: "\<And>H. ?r1\<lparr>h_reply := H\<rparr> = r\<lparr>h_reply := H\<rparr>" by simp
  have "incoming_all r (map (\<lambda>(k, v). Ctx_header k v) (a # hs) @ [Ctx_end_headers])
        = incoming_all ?r1 (map (\<lambda>(k, v). Ctx_header k v) hs @ [Ctx_end_headers])"
    by (simp only: a list.map append_Cons case_prod_conv incoming_all_header)
  also note Cons.IH [of ?r1]
  finally show ?case
    by (simp only: h1 f1 u a assign_headers.simps)
qed

lemma incoming_all_status:
  "incoming_all r (Ctx_status p n v # cs) =
     (case incoming_all (r\<lparr>p_version := Some p, n_status := Some n, v_status := Some v\<rparr>) cs of
        Inl e \<Rightarrow> Inl e
      | Inr (r', out) \<Rightarrow> Inr (r', Callout_status n # out))"
  by (simp split: sum.splits prod.splits)

lemma key_lower_te: "HeaderDict_key ''transfer-encoding'' = ''Transfer-Encoding''"
  by (simp add: str_eval)

lemma key_lower_ce: "HeaderDict_key ''content-encoding'' = ''Content-Encoding''"
  by (simp add: str_eval)

lemma added_map:
  "HeaderDict_add (HeaderDict_add Map.empty ''transfer-encoding'' ''chunked'')
       ''content-encoding'' ''gzip''
   = Map.empty(''Transfer-Encoding'' \<mapsto> Str ''chunked'', ''Content-Encoding'' \<mapsto> Str ''gzip'')"
  by (simp add: HeaderDict_add_def key_lower_te key_lower_ce)

text \<open>
  Claim C3, on the code. A reply whose headers are spelled \<open>Transfer-Encoding: chunked\<close>
  and \<open>Content-Encoding: gzip\<close> gets the chunked decoder and then the decompression
  filter, and the scan rule set is cleared. The same reply with the header names in
  lower case gets neither filter: \<open>Request.incoming\<close> stores the names as received, and
  \<open>match\<close> looks under the canonical name. Stored through \<open>HeaderDict.add\<close>, the
  same lines are found and both filters inserted.
\<close>

theorem reply_framing_misses_decoder:
  "(\<exists>r. incoming_all new_request
           [Ctx_status ''1.1'' ''200'' ''OK'', Ctx_header ''Transfer-Encoding'' ''chunked'',
            Ctx_header ''Content-Encoding'' ''gzip'', Ctx_end_headers]
         = Inr (r, [Callout_status ''200'', Callout_headers (h_reply r)])
       \<and> filters r = [ChunkedCoder, GZipCoder] \<and> scan r = None \<and> body_reply r = Some [])
   \<and> (\<exists>r. incoming_all new_request
           [Ctx_status ''1.1'' ''200'' ''OK'', Ctx_header ''transfer-encoding'' ''chunked'',
            Ctx_header ''content-encoding'' ''gzip'', Ctx_end_headers]
         = Inr (r, [Callout_status ''200'', Callout_headers (h_reply r)])
       \<and> filters r = [] \<and> scan r = None \<and> body_reply r = Some [])
   \<and> (\<exists>r. Request_prepare_body
           (new_request\<lparr>h_reply := HeaderDict_add
              (HeaderDict_add Map.empty ''transfer-encoding'' ''chunked'')
              ''content-encoding'' ''gzip''\<rparr>) = Inr r
       \<and> filters r = [ChunkedCoder, GZipCoder])"
proof (intro conjI)
  let ?r0 = "new_request\<lparr>p_version := Some ''1.1'', n_status := Some ''200'', v_status := Some ''OK''\<rparr>"
  have h0: "h_reply ?r0 = Map.empty" and f0: "filters ?r0 = []"
    by (simp_all add: new_request_def)
  let ?up = "[(''Transfer-Encoding'', ''chunked''), (''Content-Encoding'', ''gzip'')]"
  let ?lo = "[(''transfer-encoding'', ''chunked''), (''content-encoding'', ''gzip'')]"
  have up: "[Ctx_header ''Transfer-Encoding'' ''chunked'',
             Ctx_header ''Content-Encoding'' ''gzip'', Ctx_end_headers]
            = map (\<lambda>(k, v). Ctx_header k v) ?up @ [Ctx_end_headers]"
    by simp
  have lo: "[Ctx_header ''transfer-encoding'' ''chunked'',
             Ctx_header ''content-encoding'' ''gzip'', Ctx_end_headers]
            = map (\<lambda>(k, v). Ctx_header k v) ?lo @ [Ctx_end_headers]"
    by simp
  show "\<exists>r. incoming_all new_request
           [Ctx_status ''1.1'' ''200'' ''OK'', Ctx_header ''Transfer-Encoding'' ''chunked'',
            Ctx_header ''Content-Encoding'' ''gzip'', Ctx_end_headers]
         = Inr (r, [Callout_status ''200'', Callout_headers (h_reply r)])
       \<and> filters r = [ChunkedCoder, GZipCoder] \<and> scan r = None \<and> body_reply r = Some []"
    unfolding incoming_all_status up reply_path_framing h0 f0
    by (simp add: te_chunked_def ce_gzip_def str_eval)
  show "\<exists>r. incoming_all new_request
           [Ctx_status ''1.1'' ''200'' ''OK'', Ctx_header ''transfer-encoding'' ''chunked'',
            Ctx_header ''content-encoding'' ''gzip'', Ctx_end_headers]
         = Inr (r, [Callout_status ''200'', Callout_headers (h_reply r)])
       \<and> filters r = [] \<and> scan r = None \<and> body_reply r = Some []"
    unfolding incoming_all_status lo reply_path_framing h0 f0
    by (simp add: te_chunked_def ce_gzip_def str_eval)
  have fn: "filters new_request = []" by (simp add: new_request_def)
  show "\<exists>r. Request_prepare_body
           (new_request\<lparr>h_reply := HeaderDict_add
              (HeaderDict_add Map.empty ''transfer-encoding'' ''chunked'')
              ''content-encoding'' ''gzip''\<rparr>) = Inr r
       \<and> filters r = [ChunkedCoder, GZipCoder]"
    unfolding added_map prepare_body_framing
    by (simp add: te_chunked_def ce_gzip_def str_eval fn)
qed

text \<open>
  A repeated name has the same effect: the second \<open>Transfer-Encoding\<close> line replaces
  the first, and the decision is taken on the second alone.
\<close>

lemma reply_repeated_transfer_encoding:
  "\<exists>r. incoming_all new_request
          [Ctx_header ''Transfer-Encoding'' ''chunked'',
           Ctx_header ''Transfer-Encoding'' ''identity'', Ctx_end_headers]
        = Inr (r, [Callout_headers (h_reply r)])
      \<and> filters r = []"
proof -
  have e: "[Ctx_header ''Transfer-Encoding'' ''chunked'',
            Ctx_header ''Transfer-Encoding'' ''identity'', Ctx_end_headers]
           = map (\<lambda>(k, v). Ctx_header k v)
               [(''Transfer-Encoding'', ''chunked''), (''Transfer-Encoding'', ''identity'')]
             @ [Ctx_end_headers]"
    by simp
  have h0: "h_reply new_request = Map.empty" and f0: "filters new_request = []"
    by (simp_all add: new_request_def)
  show ?thesis
    unfolding e reply_path_framing h0 f0
    by (simp add: te_chunked_def ce_gzip_def str_eval)
qed

section \<open>Event tap: records\<close>

lemma update_eq:
  "update s = (s\<lparr>reqs := (reqs s)(next_req s := new_request), next_req := next_req s + 1\<rparr>,
               [Open_request (next_req s) ''/++systemInfo''])"
  by (simp add: update_def spy_request_def Let_def)

text \<open>
  Claim C8. An event-tap record that carries a camera number not in the camera map
  starts a full-state fetch (\<open>update\<close>) and does nothing else: nothing is
  dispatched to a camera, no error is called out, no exception is raised, and the
  cameras are untouched.
\<close>

theorem unknown_camera_refresh:
  assumes "label \<noteq> ''unknown''" and "label \<noteq> ''change''"
    and "py_int sq = Inr q" and "py_int cn = Inr cnum"
    and "map_of (cameras s) cnum = None"
  shows "event_stream_reply s req (Callout_scanned Scan_event_tap label (ts # sq # cn # rest)) =
           Inr (s\<lparr>reqs := (reqs s)(next_req s := new_request), next_req := next_req s + 1\<rparr>,
                [Open_request (next_req s) ''/++systemInfo''])
         \<and> filter is_cam [Open_request (next_req s) ''/++systemInfo''] = []
         \<and> filter is_error [Open_request (next_req s) ''/++systemInfo''] = []"
  using assms by (simp add: event_stream_reply_def update_eq is_cam_def is_error_def)

theorem unknown_camera_refresh_witness:
  "''motion'' \<noteq> ''unknown'' \<and> ''motion'' \<noteq> ''change''
   \<and> py_int ''7'' = Inr 7 \<and> py_int ''9'' = Inr 9 \<and> map_of (cameras live123) 9 = None
   \<and> event_stream_reply live123 0 (Callout_scanned Scan_event_tap ''motion'' [''12345'', ''7'', ''9'']) =
       Inr (live123\<lparr>reqs := (reqs live123)(1 := new_request), next_req := 2\<rparr>,
            [Open_request 1 ''/++systemInfo''])"
proof -
  have a: "''motion'' \<noteq> ''unknown''" "''motion'' \<noteq> ''change''" by simp_all
  have b: "py_int ''7'' = Inr 7" "py_int ''9'' = Inr 9" by (simp_all add: py_int_def digit_of_def)
  have c: "map_of (cameras live123) 9 = None" by (simp add: live123_def)
  have n: "next_req live123 = 1" by (simp add: live123_def)
  from unknown_camera_refresh [OF a b c, of 0 "''12345''" "[]"] a b c n
  show ?thesis by simp
qed

lemma motions_eq: "motions b = (if reason_names b = {} then {''motion''} else reason_names b)"
proof -
  define l where "l = map snd (filter (\<lambda>(code, nm). code AND b \<noteq> 0) MOTION_CODES)"
  have "motions b = set (if l = [] then [''motion''] else l)"
    by (simp add: motions_def l_def)
  moreover have "reason_names b = set l"
    by (simp add: reason_names_def l_def)
  ultimately show ?thesis by simp
qed

text \<open>
  Claim C9, as the code has it. A \<open>trigger\<close> record with type letter \<open>M\<close> on a
  known camera makes that camera call out \<open>trigger\<close> with \<open>recording\<close> and the set of
  reason names whose code bit is set in the bitmask; when no listed bit is set the set
  is \<open>{motion}\<close> instead of the empty set. Bitmask 3 gives \<open>{motion, audio}\<close>.
\<close>

theorem trigger_recording_reasons:
  assumes "py_int sq = Inr q" and "py_int cn = Inr cnum"
    and "map_of (cameras s) cnum = Some r" and "py_int reasons = Inr b"
  shows "event_stream_reply s req
           (Callout_scanned Scan_event_tap ''trigger'' [ts, sq, cn, ''M'', reasons]) =
         Inr (s, [Cam r (Trigger ''recording''
                    (if reason_names b = {} then {''motion''} else reason_names b))])"
  using assms
  by (simp add: event_stream_reply_def Camera_event_tap_def subscript_def TRIGGER_TYPES_def
      motions_eq Let_def)

theorem trigger_recording_reasons_witness:
  "py_int ''7'' = Inr 7 \<and> py_int ''3'' = Inr 3 \<and> map_of (cameras live123) 3 = Some 2
   \<and> event_stream_reply live123 0
        (Callout_scanned Scan_event_tap ''trigger'' [''12345'', ''7'', ''3'', ''M'', ''3'']) =
       Inr (live123, [Cam 2 (Trigger ''recording'' {''motion'', ''audio''})])"
proof -
  have b: "py_int ''7'' = Inr 7" "py_int ''3'' = Inr 3" by (simp_all add: py_int_def digit_of_def)
  have c: "map_of (cameras live123) 3 = Some 2" by (simp add: live123_def)
  have r: "reason_names 3 = {''motion'', ''audio''}"
    by (simp add: reason_names_def MOTION_CODES_def)
  from trigger_recording_reasons [OF b(1) b(2) c b(2), of 0 "''12345''"] b c r
  show ?thesis by simp
qed

text \<open>Bitmask 0 has no bit set, and the camera still reports \<open>{motion}\<close>.\<close>

theorem trigger_no_bits_counterexample:
  "event_stream_reply live123 0
      (Callout_scanned Scan_event_tap ''trigger'' [''12345'', ''7'', ''3'', ''M'', ''0'']) =
     Inr (live123, [Cam 2 (Trigger ''recording'' {''motion''})])
   \<and> reason_names 0 = {}
   \<and> {''motion''} \<noteq> reason_names 0"
  by (simp add: event_stream_reply_def Camera_event_tap_def subscript_def TRIGGER_TYPES_def
      motions_def reason_names_def MOTION_CODES_def Let_def py_int_def digit_of_def live123_def)

section \<open>Event tap: reconnecting\<close>

lemma close_events_Some:
  "events s = Some e \<Longrightarrow>
     close_events s = (s\<lparr>reqs := (reqs s)(e := (reqs s e)\<lparr>closed := True\<rparr>), events := None\<rparr>,
                       [Close_request e])"
  by (simp add: close_events_def)

lemma event_stream_eq:
  "event_stream s = (s\<lparr>reqs := (reqs s)(next_req s := new_request), next_req := next_req s + 1,
                        events := Some (next_req s)\<rparr>,
                     [Open_request (next_req s) ''/++eventStream?version=2''])"
  by (simp add: event_stream_def spy_request_def Let_def)

lemma reply_body:
  "events s = Some e \<Longrightarrow>
     event_stream_reply s req (Callout_body b) =
       Inr (s\<lparr>reqs := ((reqs s)(e := (reqs s e)\<lparr>closed := True\<rparr>))(next_req s := new_request),
              next_req := next_req s + 1, events := Some (next_req s)\<rparr>,
            [Close_request e, Open_request (next_req s) ''/++eventStream?version=2''])"
  by (simp add: event_stream_reply_def close_events_Some event_stream_eq)

lemma reply_error:
  "events s = Some e \<Longrightarrow>
     event_stream_reply s req (Callout_error x) =
       Inr (s\<lparr>reqs := (reqs s)(e := (reqs s e)\<lparr>closed := True\<rparr>), events := None\<rparr>,
            [Close_request e, Spy_error x])"
  by (simp add: event_stream_reply_def close_events_Some)

lemma reply_headers_200:
  "n_status (reqs s req) = Some ''200'' \<Longrightarrow>
     event_stream_reply s req (Callout_headers h) =
       Inr (s\<lparr>reqs := (reqs s)(req := (reqs s req)\<lparr>scan := Some Scan_event_tap\<rparr>)\<rparr>,
            [Spy_event_tap (Some ''200'')])"
  by (simp add: event_stream_reply_def)

lemma is_open_simps:
  "is_open (Open_request a p)" "\<not> is_open (Close_request a)" "\<not> is_open (Spy_error x)"
  by (simp_all add: is_open_def)

lemma peer_closes_opens:
  "events s \<noteq> None \<Longrightarrow>
     \<exists>s' out. peer_closes n s = Inr (s', out) \<and> length (filter is_open out) = n
        \<and> events s' \<noteq> None"
proof (induction n arbitrary: s)
  case 0
  then show ?case by simp
next
  case (Suc n)
  then obtain e where e: "events s = Some e" by auto
  let ?s1 = "s\<lparr>reqs := ((reqs s)(e := (reqs s e)\<lparr>closed := True\<rparr>))(next_req s := new_request),
              next_req := next_req s + 1, events := Some (next_req s)\<rparr>"
  have "events ?s1 \<noteq> None" by simp
  from Suc.IH [OF this] obtain s' out where
    r: "peer_closes n ?s1 = Inr (s', out)" "length (filter is_open out) = n" "events s' \<noteq> None"
    by blast
  show ?case using e r by (simp add: reply_body is_open_simps)
qed

text \<open>
  Claim C2, as the code has it. When the body of the event-tap request completes (the
  peer closed the connection) the live request is closed and a new request for the event
  stream is opened in the same step, from scratch, its rule set installed when its
  headers arrive with status 200; this repeats for any number of closes in a row, one
  new request per close, with no counter and no delay in between.
  On an error the live request is closed, \<open>_events\<close> is cleared and the error is
  called out; no new request is opened.
\<close>

theorem event_tap_reconnect_policy:
  assumes "events s = Some e"
  shows "event_stream_reply s req (Callout_body b) =
           Inr (s\<lparr>reqs := ((reqs s)(e := (reqs s e)\<lparr>closed := True\<rparr>))(next_req s := new_request),
                  next_req := next_req s + 1, events := Some (next_req s)\<rparr>,
                [Close_request e, Open_request (next_req s) ''/++eventStream?version=2''])
         \<and> (\<exists>s' out. peer_closes n s = Inr (s', out) \<and> length (filter is_open out) = n
               \<and> events s' \<noteq> None)
         \<and> (n_status (reqs s req) = Some ''200'' \<longrightarrow>
              event_stream_reply s req (Callout_headers h) =
                Inr (s\<lparr>reqs := (reqs s)(req := (reqs s req)\<lparr>scan := Some Scan_event_tap\<rparr>)\<rparr>,
                     [Spy_event_tap (Some ''200'')]))
         \<and> event_stream_reply s req (Callout_error x) =
           Inr (s\<lparr>reqs := (reqs s)(e := (reqs s e)\<lparr>closed := True\<rparr>), events := None\<rparr>,
                [Close_request e, Spy_error x])"
  using assms peer_closes_opens [of s n]
  by (simp add: reply_body reply_error reply_headers_200)

theorem event_tap_reconnect_policy_witness:
  "events live123 = Some 0 \<and> n_status (reqs live123 0) = Some ''200''
   \<and> event_stream_reply live123 0 (Callout_headers Map.empty) =
       Inr (live123\<lparr>reqs := (reqs live123)(0 := (reqs live123 0)\<lparr>scan := Some Scan_event_tap\<rparr>)\<rparr>,
            [Spy_event_tap (Some ''200'')])
   \<and> event_stream_reply live123 0 (Callout_body []) =
       Inr (live123\<lparr>reqs := ((reqs live123)(0 := (reqs live123 0)\<lparr>closed := True\<rparr>))(1 := new_request),
              next_req := 2, events := Some 1\<rparr>,
            [Close_request 0, Open_request 1 ''/++eventStream?version=2''])"
proof -
  have e: "events live123 = Some 0" by (simp add: live123_def)
  have n: "next_req live123 = 1" by (simp add: live123_def)
  have st: "n_status (reqs live123 0) = Some ''200''" by (simp add: live123_def)
  from event_tap_reconnect_policy [OF e, of 0 "[]" 0 Map.empty "[]"] e n st show ?thesis by simp
qed

text \<open>An I/O error on the live event tap: closed, reported, not reopened.\<close>

theorem event_tap_error_counterexample:
  "event_stream_reply live123 0 (Callout_error ''Connection reset by peer'') =
     Inr (live123\<lparr>reqs := (reqs live123)(0 := (reqs live123 0)\<lparr>closed := True\<rparr>), events := None\<rparr>,
          [Close_request 0, Spy_error ''Connection reset by peer''])
   \<and> filter is_open [Close_request 0, Spy_error ''Connection reset by peer''] = []"
  by (simp add: event_stream_reply_def close_events_def live123_def is_open_simps)

section \<open>Reconciliation: the first loop\<close>

lemma refresh_at_eq: "refresh_at s r c = (merged_at s r c, status_for s r c)"
  by (simp add: refresh_at_def merged_at_def status_for_def split: prod.splits)

lemma dict_set_new: "map_of d k = None \<Longrightarrow> dict_set d k v = d @ [(k, v)]"
  by (induction d) (auto split: if_splits)

lemma map_of_Some_key: "map_of d k = Some v \<Longrightarrow> k \<in> fst ` set d"
  by (metis map_of_eq_None_iff option.distinct(1))

lemma dict_del_Inr:
  "dict_del d k = Inr d' \<longleftrightarrow> (k \<in> fst ` set d \<and> d' = filter (\<lambda>p. fst p \<noteq> k) d)"
  by (auto simp: dict_del_def map_of_eq_None_iff split: option.splits
      dest: map_of_Some_key)

lemma dict_del_Inl: "dict_del d k = Inl e \<longleftrightarrow> (k \<notin> fst ` set d \<and> e = KeyError)"
  by (auto simp: dict_del_def map_of_eq_None_iff split: option.splits
      dest: map_of_Some_key)

lemma configure_cameras_known:
  assumes "map_of (cameras s) (number c) = Some r"
  shows "configure_cameras (c # cs) s old = Inr (s', old', out) \<longleftrightarrow>
     (number c \<in> fst ` set old \<and>
      (\<exists>out2. configure_cameras cs (merged_at s r c) (filter (\<lambda>p. fst p \<noteq> number c) old)
                 = Inr (s', old', out2)
             \<and> out = status_for s r c @ out2))"
  using assms
  by (auto simp: refresh_at_eq dict_del_Inr dict_del_Inl split: sum.splits)

lemma configure_cameras_new:
  assumes "map_of (cameras s) (number c) = None"
  shows "configure_cameras (c # cs) s old = Inr (s', old', out) \<longleftrightarrow>
     (\<exists>out2. configure_cameras cs (inserted s c) old = Inr (s', old', out2)
            \<and> out = Spy_added (next_ref s) # out2)"
  using assms
  by (auto simp: inserted_def Let_def split: sum.splits)

lemma merged_fields [simp]:
  "cameras (merged_at s r c) = cameras s"
  "next_ref (merged_at s r c) = next_ref s"
  "events (merged_at s r c) = events s"
  "heap (merged_at s r c) r' = (if r' = r then fst (Camera_refresh (heap s r) c) else heap s r')"
  by (simp_all add: merged_at_def)

lemma inserted_fields [simp]:
  "next_ref (inserted s c) = next_ref s + 1"
  "events (inserted s c) = events s"
  "heap (inserted s c) r' = (if r' = next_ref s then c else heap s r')"
  by (simp_all add: inserted_def)

lemma inserted_cameras:
  "map_of (cameras s) (number c) = None \<Longrightarrow>
     cameras (inserted s c) = cameras s @ [(number c, next_ref s)]"
  by (simp add: inserted_def dict_set_new)

lemma wf_merged: "wf (merged_at s r c) = wf s"
  by (simp add: wf_def)

lemma wf_lt: "wf s \<Longrightarrow> map_of (cameras s) n = Some r \<Longrightarrow> r < next_ref s"
  by (auto simp: wf_def list_all_iff dest!: map_of_SomeD)

lemma wf_inserted:
  "wf s \<Longrightarrow> map_of (cameras s) (number c) = None \<Longrightarrow> wf (inserted s c)"
  by (auto simp: wf_def inserted_cameras list_all_iff map_of_eq_None_iff)

lemma distinct_snd_inj:
  "distinct (map snd xs) \<Longrightarrow> (n, r) \<in> set xs \<Longrightarrow> (n', r) \<in> set xs \<Longrightarrow> n = n'"
  by (induction xs) (auto simp: image_iff)

lemma wf_inj:
  "wf s \<Longrightarrow> map_of (cameras s) n = Some r \<Longrightarrow> map_of (cameras s) n' = Some r \<Longrightarrow> n = n'"
  by (auto simp: wf_def dest!: map_of_SomeD intro: distinct_snd_inj)

lemma inserted_lookup:
  "map_of (cameras s) (number c) = None \<Longrightarrow>
     map_of (cameras (inserted s c)) n =
       (if n = number c then Some (next_ref s) else map_of (cameras s) n)"
  by (auto simp: inserted_cameras map_add_def split: option.splits)

declare configure_cameras.simps(2) [simp del]

lemma loop_wf:
  "wf s \<Longrightarrow> configure_cameras cs s old = Inr (s', old', out) \<Longrightarrow> wf s'"
proof (induction cs arbitrary: s old out)
  case Nil
  then show ?case by simp
next
  case (Cons c cs)
  show ?case
  proof (cases "map_of (cameras s) (number c)")
    case None
    with Cons.prems obtain out2 where
      "configure_cameras cs (inserted s c) old = Inr (s', old', out2)"
      by (auto simp: configure_cameras_new)
    with Cons.IH [of "inserted s c"] wf_inserted [OF Cons.prems(1) None]
    show ?thesis by blast
  next
    case (Some r)
    with Cons.prems obtain out2 where
      "configure_cameras cs (merged_at s r c) (filter (\<lambda>p. fst p \<noteq> number c) old)
         = Inr (s', old', out2)"
      by (auto simp: configure_cameras_known)
    with Cons.IH [of "merged_at s r c"] Cons.prems(1)
    show ?thesis by (simp add: wf_merged)
  qed
qed

text \<open>An entry whose number is not in the list is left alone.\<close>

lemma loop_frame:
  "wf s \<Longrightarrow> configure_cameras cs s old = Inr (s', old', out) \<Longrightarrow>
   map_of (cameras s) n = Some r \<Longrightarrow> n \<notin> number ` set cs \<Longrightarrow>
     map_of (cameras s') n = Some r \<and> heap s' r = heap s r \<and> Cam r Status \<notin> set out"
proof (induction cs arbitrary: s old out)
  case Nil
  then show ?case by simp
next
  case (Cons c cs)
  from Cons.prems(4) have ne: "n \<noteq> number c" and nt: "n \<notin> number ` set cs" by auto
  show ?case
  proof (cases "map_of (cameras s) (number c)")
    case None
    with Cons.prems obtain out2 where
      t: "configure_cameras cs (inserted s c) old = Inr (s', old', out2)"
      and o: "out = Spy_added (next_ref s) # out2"
      by (auto simp: configure_cameras_new)
    have l: "map_of (cameras (inserted s c)) n = Some r"
      using None Cons.prems(3) ne by (simp add: inserted_lookup)
    have "r < next_ref s" using Cons.prems(1,3) by (rule wf_lt)
    then have h: "heap (inserted s c) r = heap s r" by simp
    from Cons.IH [OF wf_inserted [OF Cons.prems(1) None] t l nt] h o
    show ?thesis by simp
  next
    case (Some r')
    with Cons.prems obtain out2 where
      t: "configure_cameras cs (merged_at s r' c) (filter (\<lambda>p. fst p \<noteq> number c) old)
         = Inr (s', old', out2)"
      and o: "out = status_for s r' c @ out2"
      by (auto simp: configure_cameras_known)
    have rr: "r' \<noteq> r" using wf_inj [OF Cons.prems(1) Cons.prems(3), of "number c"] Some ne by auto
    have w: "wf (merged_at s r' c)" using Cons.prems(1) by (simp add: wf_merged)
    have l: "map_of (cameras (merged_at s r' c)) n = Some r" using Cons.prems(3) by simp
    from Cons.IH [OF w t l nt] rr o
    show ?thesis by (simp add: status_for_def)
  qed
qed

text \<open>A number that is in the camera map but not in the check-off copy ends the loop.\<close>

lemma loop_KeyError:
  "n \<in> fst ` set (cameras s) \<Longrightarrow> n \<notin> fst ` set old \<Longrightarrow> n \<in> number ` set cs \<Longrightarrow>
     configure_cameras cs s old \<noteq> Inr res"
proof (induction cs arbitrary: s old res)
  case Nil
  then show ?case by simp
next
  case (Cons c cs)
  obtain s' old' out where res: "res = (s', old', out)" by (cases res) auto
  show ?case
  proof (cases "map_of (cameras s) (number c)")
    case None
    then have "number c \<notin> fst ` set (cameras s)" by (simp add: map_of_eq_None_iff)
    with Cons.prems have nt: "n \<in> number ` set cs" by force
    have "n \<in> fst ` set (cameras (inserted s c))"
      using Cons.prems(1) None by (auto simp: inserted_cameras)
    from Cons.IH [OF this Cons.prems(2) nt]
    show ?thesis using None by (auto simp: res configure_cameras_new)
  next
    case (Some r)
    show ?thesis
    proof (cases "n = number c")
      case True
      with Cons.prems(2) Some show ?thesis by (auto simp: res configure_cameras_known)
    next
      case False
      with Cons.prems have nt: "n \<in> number ` set cs" by auto
      have a: "n \<in> fst ` set (cameras (merged_at s r c))" using Cons.prems(1) by simp
      have b: "n \<notin> fst ` set (filter (\<lambda>p. fst p \<noteq> number c) old)" using Cons.prems(2) by auto
      from Cons.IH [OF a b nt]
      show ?thesis using Some by (auto simp: res configure_cameras_known)
    qed
  qed
qed

text \<open>A list that gets through the loop has no camera number twice.\<close>

lemma loop_distinct:
  "fst ` set old \<subseteq> fst ` set (cameras s) \<Longrightarrow>
   configure_cameras cs s old = Inr (s', old', out) \<Longrightarrow> distinct (map number cs)"
proof (induction cs arbitrary: s old out)
  case Nil
  then show ?case by simp
next
  case (Cons c cs)
  show ?case
  proof (cases "map_of (cameras s) (number c)")
    case None
    with Cons.prems obtain out2 where
      t: "configure_cameras cs (inserted s c) old = Inr (s', old', out2)"
      by (auto simp: configure_cameras_new)
    have sub: "fst ` set old \<subseteq> fst ` set (cameras (inserted s c))"
      using Cons.prems(1) None by (auto simp: inserted_cameras)
    have a: "number c \<in> fst ` set (cameras (inserted s c))"
      using None by (simp add: inserted_cameras)
    have b: "number c \<notin> fst ` set old"
      using None Cons.prems(1) by (auto simp: map_of_eq_None_iff)
    have "number c \<notin> number ` set cs"
      using loop_KeyError [OF a b, of cs "(s', old', out2)"] t by blast
    with Cons.IH [OF sub t] show ?thesis by simp
  next
    case (Some r)
    with Cons.prems obtain out2 where
      t: "configure_cameras cs (merged_at s r c) (filter (\<lambda>p. fst p \<noteq> number c) old)
         = Inr (s', old', out2)"
      by (auto simp: configure_cameras_known)
    have sub: "fst ` set (filter (\<lambda>p. fst p \<noteq> number c) old) \<subseteq> fst ` set (cameras (merged_at s r c))"
      using Cons.prems(1) by auto
    have a: "number c \<in> fst ` set (cameras (merged_at s r c))"
      using Some by (auto dest: map_of_Some_key)
    have b: "number c \<notin> fst ` set (filter (\<lambda>p. fst p \<noteq> number c) old)" by auto
    have "number c \<notin> number ` set cs"
      using loop_KeyError [OF a b, of cs "(s', old', out2)"] t by blast
    with Cons.IH [OF sub t] show ?thesis by simp
  qed
qed

text \<open>A number known before the loop keeps its object, merged once.\<close>

lemma loop_known:
  "wf s \<Longrightarrow> distinct (map number cs) \<Longrightarrow>
   configure_cameras cs s old = Inr (s', old', out) \<Longrightarrow>
   c \<in> set cs \<Longrightarrow> map_of (cameras s) (number c) = Some r \<Longrightarrow>
     map_of (cameras s') (number c) = Some r
     \<and> heap s' r = fst (Camera_refresh (heap s r) c)
     \<and> (Cam r Status \<in> set out \<longleftrightarrow> snd (Camera_refresh (heap s r) c))"
proof (induction cs arbitrary: s old out)
  case Nil
  then show ?case by simp
next
  case (Cons c0 cs)
  from Cons.prems(2) have d: "distinct (map number cs)" and n0: "number c0 \<notin> number ` set cs"
    by auto
  show ?case
  proof (cases "c = c0")
    case True
    with Cons.prems obtain out2 where
      t: "configure_cameras cs (merged_at s r c) (filter (\<lambda>p. fst p \<noteq> number c) old)
         = Inr (s', old', out2)"
      and o: "out = status_for s r c @ out2"
      by (auto simp: configure_cameras_known)
    have w: "wf (merged_at s r c)" using Cons.prems(1) by (simp add: wf_merged)
    have l: "map_of (cameras (merged_at s r c)) (number c) = Some r" using Cons.prems(5) by simp
    from loop_frame [OF w t l] n0 True o
    show ?thesis by (simp add: status_for_def)
  next
    case False
    with Cons.prems(4) have cin: "c \<in> set cs" by simp
    with n0 have ne: "number c \<noteq> number c0" by (metis imageI)
    show ?thesis
    proof (cases "map_of (cameras s) (number c0)")
      case None
      with Cons.prems obtain out2 where
        t: "configure_cameras cs (inserted s c0) old = Inr (s', old', out2)"
        and o: "out = Spy_added (next_ref s) # out2"
        by (auto simp: configure_cameras_new)
      have l: "map_of (cameras (inserted s c0)) (number c) = Some r"
        using None Cons.prems(5) ne by (simp add: inserted_lookup)
      have "r < next_ref s" using Cons.prems(1,5) by (rule wf_lt)
      then have h: "heap (inserted s c0) r = heap s r" by simp
      from Cons.IH [OF wf_inserted [OF Cons.prems(1) None] d t cin l] h o
      show ?thesis by simp
    next
      case (Some r0)
      with Cons.prems obtain out2 where
        t: "configure_cameras cs (merged_at s r0 c0) (filter (\<lambda>p. fst p \<noteq> number c0) old)
           = Inr (s', old', out2)"
        and o: "out = status_for s r0 c0 @ out2"
        by (auto simp: configure_cameras_known)
      have rr: "r0 \<noteq> r"
        using wf_inj [OF Cons.prems(1) Cons.prems(5), of "number c0"] Some ne by auto
      have w: "wf (merged_at s r0 c0)" using Cons.prems(1) by (simp add: wf_merged)
      have l: "map_of (cameras (merged_at s r0 c0)) (number c) = Some r"
        using Cons.prems(5) by simp
      from Cons.IH [OF w d t cin l] rr o
      show ?thesis by (simp add: status_for_def)
    qed
  qed
qed

text \<open>A number new to the map gets a fresh object, the one built from the list.\<close>

lemma loop_new:
  "wf s \<Longrightarrow> distinct (map number cs) \<Longrightarrow>
   configure_cameras cs s old = Inr (s', old', out) \<Longrightarrow>
   c \<in> set cs \<Longrightarrow> map_of (cameras s) (number c) = None \<Longrightarrow>
     \<exists>r. next_ref s \<le> r \<and> map_of (cameras s') (number c) = Some r
        \<and> heap s' r = c \<and> Spy_added r \<in> set out"
proof (induction cs arbitrary: s old out)
  case Nil
  then show ?case by simp
next
  case (Cons c0 cs)
  from Cons.prems(2) have d: "distinct (map number cs)" and n0: "number c0 \<notin> number ` set cs"
    by auto
  show ?case
  proof (cases "c = c0")
    case True
    with Cons.prems obtain out2 where
      t: "configure_cameras cs (inserted s c) old = Inr (s', old', out2)"
      and o: "out = Spy_added (next_ref s) # out2"
      by (auto simp: configure_cameras_new)
    have w: "wf (inserted s c)" using Cons.prems(1,5) by (rule wf_inserted)
    have l: "map_of (cameras (inserted s c)) (number c) = Some (next_ref s)"
      using Cons.prems(5) by (simp add: inserted_lookup)
    from loop_frame [OF w t l] n0 True o
    show ?thesis by auto
  next
    case False
    with Cons.prems(4) have cin: "c \<in> set cs" by simp
    with n0 have ne: "number c \<noteq> number c0" by (metis imageI)
    show ?thesis
    proof (cases "map_of (cameras s) (number c0)")
      case None
      with Cons.prems obtain out2 where
        t: "configure_cameras cs (inserted s c0) old = Inr (s', old', out2)"
        and o: "out = Spy_added (next_ref s) # out2"
        by (auto simp: configure_cameras_new)
      have l: "map_of (cameras (inserted s c0)) (number c) = None"
        using None Cons.prems(5) ne by (simp add: inserted_lookup)
      from Cons.IH [OF wf_inserted [OF Cons.prems(1) None] d t cin l] o
      show ?thesis by auto
    next
      case (Some r0)
      with Cons.prems obtain out2 where
        t: "configure_cameras cs (merged_at s r0 c0) (filter (\<lambda>p. fst p \<noteq> number c0) old)
           = Inr (s', old', out2)"
        and o: "out = status_for s r0 c0 @ out2"
        by (auto simp: configure_cameras_known)
      have w: "wf (merged_at s r0 c0)" using Cons.prems(1) by (simp add: wf_merged)
      have l: "map_of (cameras (merged_at s r0 c0)) (number c) = None"
        using Cons.prems(5) by simp
      from Cons.IH [OF w d t cin l] o
      show ?thesis by auto
    qed
  qed
qed

text \<open>What is left of the check-off copy, and the keys of the map, after the loop.\<close>

lemma loop_old:
  "fst ` set old \<subseteq> fst ` set (cameras s) \<Longrightarrow>
   configure_cameras cs s old = Inr (s', old', out) \<Longrightarrow>
     old' = filter (\<lambda>p. fst p \<notin> number ` set cs) old"
proof (induction cs arbitrary: s old out)
  case Nil
  then show ?case by simp
next
  case (Cons c cs)
  show ?case
  proof (cases "map_of (cameras s) (number c)")
    case None
    with Cons.prems obtain out2 where
      t: "configure_cameras cs (inserted s c) old = Inr (s', old', out2)"
      by (auto simp: configure_cameras_new)
    have sub: "fst ` set old \<subseteq> fst ` set (cameras (inserted s c))"
      using Cons.prems(1) None by (auto simp: inserted_cameras)
    have b: "number c \<notin> fst ` set old"
      using None Cons.prems(1) by (auto simp: map_of_eq_None_iff)
    then have "\<And>p. p \<in> set old \<Longrightarrow> fst p \<noteq> number c" by force
    then have "filter (\<lambda>p. fst p \<notin> number ` set (c # cs)) old
               = filter (\<lambda>p. fst p \<notin> number ` set cs) old"
      by (intro filter_cong) simp_all
    with Cons.IH [OF sub t] show ?thesis by simp
  next
    case (Some r)
    with Cons.prems obtain out2 where
      t: "configure_cameras cs (merged_at s r c) (filter (\<lambda>p. fst p \<noteq> number c) old)
         = Inr (s', old', out2)"
      by (auto simp: configure_cameras_known)
    have sub: "fst ` set (filter (\<lambda>p. fst p \<noteq> number c) old) \<subseteq> fst ` set (cameras (merged_at s r c))"
      using Cons.prems(1) by auto
    have "filter (\<lambda>p. fst p \<notin> number ` set cs) (filter (\<lambda>p. fst p \<noteq> number c) old)
          = filter (\<lambda>p. fst p \<notin> number ` set (c # cs)) old"
      by (simp add: conj_commute)
    with Cons.IH [OF sub t] show ?thesis by simp
  qed
qed

lemma loop_keys:
  "configure_cameras cs s old = Inr (s', old', out) \<Longrightarrow>
     fst ` set (cameras s') = fst ` set (cameras s) \<union> number ` set cs"
proof (induction cs arbitrary: s old out)
  case Nil
  then show ?case by simp
next
  case (Cons c cs)
  show ?case
  proof (cases "map_of (cameras s) (number c)")
    case None
    with Cons.prems obtain out2 where
      t: "configure_cameras cs (inserted s c) old = Inr (s', old', out2)"
      by (auto simp: configure_cameras_new)
    from Cons.IH [OF t] None show ?thesis by (auto simp: inserted_cameras)
  next
    case (Some r)
    with Cons.prems obtain out2 where
      t: "configure_cameras cs (merged_at s r c) (filter (\<lambda>p. fst p \<noteq> number c) old)
         = Inr (s', old', out2)"
      by (auto simp: configure_cameras_known)
    from Cons.IH [OF t] Some show ?thesis by (auto dest: map_of_Some_key)
  qed
qed

text \<open>The loop touches nothing but the cameras, the store and the allocation mark.\<close>

lemma loop_rest:
  "configure_cameras cs s old = Inr (s', old', out) \<Longrightarrow>
     events s' = events s \<and> reqs s' = reqs s \<and> next_req s' = next_req s
     \<and> server s' = server s \<and> version s' = version s \<and> next_ref s \<le> next_ref s'"
proof (induction cs arbitrary: s old out)
  case Nil
  then show ?case by simp
next
  case (Cons c cs)
  show ?case
  proof (cases "map_of (cameras s) (number c)")
    case None
    with Cons.prems obtain out2 where
      t: "configure_cameras cs (inserted s c) old = Inr (s', old', out2)"
      by (auto simp: configure_cameras_new)
    from Cons.IH [OF t] show ?thesis by (simp add: inserted_def)
  next
    case (Some r)
    with Cons.prems obtain out2 where
      t: "configure_cameras cs (merged_at s r c) (filter (\<lambda>p. fst p \<noteq> number c) old)
         = Inr (s', old', out2)"
      by (auto simp: configure_cameras_known)
    from Cons.IH [OF t] show ?thesis by (simp add: merged_at_def)
  qed
qed

lemma loop_effects:
  "configure_cameras cs s old = Inr (s', old', out) \<Longrightarrow> list_all loop_effect out"
proof (induction cs arbitrary: s old out)
  case Nil
  then show ?case by simp
next
  case (Cons c cs)
  show ?case
  proof (cases "map_of (cameras s) (number c)")
    case None
    with Cons.prems obtain out2 where
      t: "configure_cameras cs (inserted s c) old = Inr (s', old', out2)"
      and o: "out = Spy_added (next_ref s) # out2"
      by (auto simp: configure_cameras_new)
    from Cons.IH [OF t] o show ?thesis by (simp add: loop_effect_def)
  next
    case (Some r)
    with Cons.prems obtain out2 where
      t: "configure_cameras cs (merged_at s r c) (filter (\<lambda>p. fst p \<noteq> number c) old)
         = Inr (s', old', out2)"
      and o: "out = status_for s r c @ out2"
      by (auto simp: configure_cameras_known)
    from Cons.IH [OF t] o show ?thesis by (simp add: loop_effect_def status_for_def)
  qed
qed

text \<open>With no number twice, and every known number still to be checked off, the loop returns.\<close>

lemma loop_returns:
  "distinct (map number cs) \<Longrightarrow>
   list_all (\<lambda>c. number c \<in> fst ` set (cameras s) \<longrightarrow> number c \<in> fst ` set old) cs \<Longrightarrow>
     \<exists>s' old' out. configure_cameras cs s old = Inr (s', old', out)"
proof (induction cs arbitrary: s old)
  case Nil
  then show ?case by simp
next
  case (Cons c cs)
  from Cons.prems(1) have d: "distinct (map number cs)" and n0: "number c \<notin> number ` set cs"
    by auto
  from n0 have ne: "\<And>c'. c' \<in> set cs \<Longrightarrow> number c' \<noteq> number c" by (metis imageI)
  show ?case
  proof (cases "map_of (cameras s) (number c)")
    case None
    have "list_all (\<lambda>c'. number c' \<in> fst ` set (cameras (inserted s c)) \<longrightarrow> number c' \<in> fst ` set old) cs"
      using Cons.prems(2) ne None by (auto simp: list_all_iff inserted_cameras)
    from Cons.IH [OF d this] None show ?thesis by (auto simp: configure_cameras_new)
  next
    case (Some r)
    then have k: "number c \<in> fst ` set old"
      using Cons.prems(2) by (auto dest: map_of_Some_key)
    have "list_all (\<lambda>c'. number c' \<in> fst ` set (cameras (merged_at s r c)) \<longrightarrow>
             number c' \<in> fst ` set (filter (\<lambda>p. fst p \<noteq> number c) old)) cs"
      unfolding list_all_iff
    proof (intro ballI impI)
      fix c' assume c': "c' \<in> set cs"
        and "number c' \<in> fst ` set (cameras (merged_at s r c))"
      then have "number c' \<in> fst ` set old"
        using Cons.prems(2) by (simp add: list_all_iff)
      then obtain p where p: "p \<in> set old" "fst p = number c'" by (auto simp: image_iff)
      with ne [OF c'] have "p \<in> set (filter (\<lambda>p. fst p \<noteq> number c) old)" by simp
      with p(2) show "number c' \<in> fst ` set (filter (\<lambda>p. fst p \<noteq> number c) old)"
        by (metis imageI)
    qed
    from Cons.IH [OF d this] Some k show ?thesis by (auto simp: configure_cameras_known)
  qed
qed

section \<open>Reconciliation: the whole of \<open>_configure\<close>\<close>

lemma remove_cameras_eq:
  "distinct (map fst old) \<Longrightarrow> fst ` set old \<subseteq> fst ` set (cameras s) \<Longrightarrow>
     remove_cameras old s =
       Inr (s\<lparr>cameras := filter (\<lambda>p. fst p \<notin> fst ` set old) (cameras s)\<rparr>, removed_for old)"
proof (induction old arbitrary: s)
  case Nil
  then show ?case by (simp add: removed_for_def)
next
  case (Cons a old)
  obtain k r where a: "a = (k, r)" by (cases a) auto
  let ?s1 = "s\<lparr>cameras := filter (\<lambda>p. fst p \<noteq> k) (cameras s)\<rparr>"
  from Cons.prems a have kin: "k \<in> fst ` set (cameras s)" by simp
  then have del: "dict_del (cameras s) k = Inr (filter (\<lambda>p. fst p \<noteq> k) (cameras s))"
    by (simp add: dict_del_Inr)
  from Cons.prems a have d: "distinct (map fst old)" and kn: "k \<notin> fst ` set old" by auto
  have sub: "fst ` set old \<subseteq> fst ` set (cameras ?s1)"
  proof
    fix x assume x: "x \<in> fst ` set old"
    with Cons.prems(2) have "x \<in> fst ` set (cameras s)" by auto
    then obtain p where "p \<in> set (cameras s)" "fst p = x" by (auto simp: image_iff)
    moreover from x kn have "x \<noteq> k" by auto
    ultimately have "p \<in> set (cameras ?s1)" by simp
    with \<open>fst p = x\<close> show "x \<in> fst ` set (cameras ?s1)" by (metis imageI)
  qed
  have f: "filter (\<lambda>p. fst p \<notin> fst ` set old) (filter (\<lambda>p. fst p \<noteq> k) (cameras s))
           = filter (\<lambda>p. fst p \<notin> fst ` set (a # old)) (cameras s)"
    by (simp add: a conj_commute)
  from Cons.IH [OF d sub] del f show ?case
    by (simp add: a removed_for_def)
qed

lemma map_of_filter_key:
  "map_of (filter (\<lambda>p. Q (fst p)) xs) k = (if Q k then map_of xs k else None)"
  by (induction xs) auto

lemma spy_request_fields:
  "cameras (fst (spy_request s p)) = cameras s"
  "heap (fst (spy_request s p)) = heap s"
  "next_ref (fst (spy_request s p)) = next_ref s"
  "events (fst (spy_request s p)) = events s"
  "server (fst (spy_request s p)) = server s"
  "version (fst (spy_request s p)) = version s"
  by (simp_all add: spy_request_def Let_def)

lemma install_tap_eq:
  "\<exists>s' a b c. install_tap s = (s', [Open_request a ''/++eventStream?version=2'',
        Open_request b ''/++scripts'', Open_request c ''/++sounds''])
     \<and> cameras s' = cameras s \<and> heap s' = heap s \<and> next_ref s' = next_ref s
     \<and> events s' \<noteq> None \<and> server s' = server s \<and> version s' = version s"
  by (simp add: install_tap_def event_stream_def fetch_list_def spy_request_def Let_def)

lemma prepared_fields:
  "cameras (fst (prepared s nm ver)) = cameras s"
  "heap (fst (prepared s nm ver)) = heap s"
  "next_ref (fst (prepared s nm ver)) = next_ref s"
  "events (fst (prepared s nm ver)) \<noteq> None"
  "server (fst (prepared s nm ver)) = nm"
  "version (fst (prepared s nm ver)) = ver"
  "list_all is_open (snd (prepared s nm ver))"
  using install_tap_eq [of "s\<lparr>server := nm, version := ver\<rparr>"]
  by (auto simp: prepared_def Let_def is_open_def)

lemma wf_prepared: "wf (fst (prepared s nm ver)) = wf s"
  by (simp add: wf_def prepared_fields)

lemma prepared_idle:
  "events s \<noteq> None \<Longrightarrow> server s = nm \<Longrightarrow> version s = ver \<Longrightarrow> prepared s nm ver = (s, [])"
  by (auto simp: prepared_def Let_def)

lemma configure_unfold:
  "SecuritySpy_configure s (System_info nm ver cams) =
     (case configure_cameras cams (fst (prepared s nm ver)) (cameras s) of
        Inl e \<Rightarrow> Inl e
      | Inr (s1, old1, out2) \<Rightarrow>
          (case remove_cameras old1 s1 of
             Inl e \<Rightarrow> Inl e
           | Inr (s2, out3) \<Rightarrow>
               Inr (s2, snd (prepared s nm ver) @ out2 @ out3 @ [Spy_ready (cameras s2)])))"
  using install_tap_eq [of "s\<lparr>server := nm, version := ver\<rparr>"]
  by (auto simp: SecuritySpy_configure_def prepared_def Let_def split: prod.splits sum.splits)

text \<open>The whole of \<open>_configure\<close> for a camera list that has no number twice.\<close>

lemma configure_result:
  assumes w: "wf s" and d: "distinct (map number cams)"
  defines "old1 \<equiv> filter (\<lambda>p. fst p \<notin> number ` set cams) (cameras s)"
  shows "\<exists>s1 out2.
     configure_cameras cams (fst (prepared s nm ver)) (cameras s) = Inr (s1, old1, out2)
     \<and> SecuritySpy_configure s (System_info nm ver cams) =
         Inr (s1\<lparr>cameras := filter (\<lambda>p. fst p \<in> number ` set cams) (cameras s1)\<rparr>,
              snd (prepared s nm ver) @ out2 @ removed_for old1
                @ [Spy_ready (filter (\<lambda>p. fst p \<in> number ` set cams) (cameras s1))])"
proof -
  let ?s0 = "fst (prepared s nm ver)"
  have c0: "cameras ?s0 = cameras s" by (simp add: prepared_fields)
  have "list_all (\<lambda>c. number c \<in> fst ` set (cameras ?s0) \<longrightarrow> number c \<in> fst ` set (cameras s)) cams"
    by (simp add: c0 list_all_iff)
  from loop_returns [OF d this] obtain s1 old' out2 where
    l: "configure_cameras cams ?s0 (cameras s) = Inr (s1, old', out2)" by blast
  have sub: "fst ` set (cameras s) \<subseteq> fst ` set (cameras ?s0)" by (simp add: c0)
  from loop_old [OF sub l] have o: "old' = old1" by (simp add: old1_def)
  from loop_keys [OF l] have k: "fst ` set (cameras s1) = fst ` set (cameras s) \<union> number ` set cams"
    by (simp add: c0)
  have d1: "distinct (map fst old1)"
    using w by (simp add: old1_def wf_def distinct_map_filter)
  have s1: "fst ` set old1 \<subseteq> fst ` set (cameras s1)"
    using k by (auto simp: old1_def)
  have ko: "fst ` set old1 = fst ` set (cameras s) - number ` set cams"
    by (auto simp: old1_def image_iff)
  have f: "filter (\<lambda>p. fst p \<notin> fst ` set old1) (cameras s1)
           = filter (\<lambda>p. fst p \<in> number ` set cams) (cameras s1)"
  proof (intro filter_cong refl)
    fix p assume "p \<in> set (cameras s1)"
    then have "fst p \<in> fst ` set (cameras s) \<union> number ` set cams"
      using k by (metis imageI)
    then show "(fst p \<notin> fst ` set old1) = (fst p \<in> number ` set cams)"
      by (auto simp: ko)
  qed
  from remove_cameras_eq [OF d1 s1] l o f show ?thesis
    by (simp add: configure_unfold)
qed

text \<open>Well-formedness is kept by \<open>_configure\<close>, and holds of the empty camera map.\<close>

lemma configure_wf:
  assumes "wf s" and "SecuritySpy_configure s info = Inr (s', out)"
  shows "wf s'"
proof (cases info)
  case (Malformed x e)
  with assms show ?thesis by (auto simp: SecuritySpy_configure_def split: if_splits)
next
  case (System_info nm ver cams)
  with assms(2) have r: "SecuritySpy_configure s (System_info nm ver cams) = Inr (s', out)"
    by simp
  then obtain s1 old1 out2 where
    l: "configure_cameras cams (fst (prepared s nm ver)) (cameras s) = Inr (s1, old1, out2)"
    by (auto simp: configure_unfold split: sum.splits)
  have sub: "fst ` set (cameras s) \<subseteq> fst ` set (cameras (fst (prepared s nm ver)))"
    by (simp add: prepared_fields)
  from loop_distinct [OF sub l] have d: "distinct (map number cams)" .
  have "wf s1" using loop_wf [OF _ l] assms(1) by (simp add: wf_prepared)
  then have "wf (s1\<lparr>cameras := filter (\<lambda>p. fst p \<in> number ` set cams) (cameras s1)\<rparr>)"
    by (auto simp: wf_def distinct_map_filter list_all_iff)
  with configure_result [OF assms(1) d, of nm ver] l r show ?thesis by auto
qed

lemma wf_empty: "cameras s = [] \<Longrightarrow> wf s"
  by (simp add: wf_def)

text \<open>Running the loop on a state that already agrees with the list changes nothing.\<close>

lemma refresh_same: "agrees self c \<Longrightarrow> fst (Camera_refresh self c) = self"
proof -
  assume "agrees self c"
  then have "name c = name self" "size_wh c = size_wh self" "connected c = connected self"
    "armed c = armed self" "sensitivity c = sensitivity self"
    by (simp_all add: agrees_def)
  then show ?thesis by (simp add: Camera_refresh_def Let_def)
qed

lemma merged_same: "agrees (heap s r) c \<Longrightarrow> merged_at s r c = s"
  by (simp add: merged_at_def refresh_same)

lemma status_none: "agrees (heap s r) c \<Longrightarrow> status_for s r c = []"
  by (simp add: status_for_def agrees_def Camera_refresh_def Let_def)

lemma loop_idle:
  "distinct (map number cs) \<Longrightarrow>
   list_all (\<lambda>c. \<exists>r. map_of (cameras s) (number c) = Some r \<and> agrees (heap s r) c) cs \<Longrightarrow>
   number ` set cs \<subseteq> fst ` set old \<Longrightarrow>
     configure_cameras cs s old = Inr (s, filter (\<lambda>p. fst p \<notin> number ` set cs) old, [])"
proof (induction cs arbitrary: old)
  case Nil
  then show ?case by simp
next
  case (Cons c cs)
  from Cons.prems(1) have d: "distinct (map number cs)" and n0: "number c \<notin> number ` set cs"
    by auto
  from n0 have ne: "\<And>c'. c' \<in> set cs \<Longrightarrow> number c' \<noteq> number c" by (metis imageI)
  from Cons.prems(2) obtain r where r: "map_of (cameras s) (number c) = Some r"
    and a: "agrees (heap s r) c" and rest: "list_all (\<lambda>c. \<exists>r. map_of (cameras s) (number c) = Some r \<and> agrees (heap s r) c) cs"
    by auto
  from Cons.prems(3) have kin: "number c \<in> fst ` set old" by simp
  have sub: "number ` set cs \<subseteq> fst ` set (filter (\<lambda>p. fst p \<noteq> number c) old)"
  proof
    fix x assume "x \<in> number ` set cs"
    then obtain c' where c': "c' \<in> set cs" "x = number c'" by auto
    with Cons.prems(3) have "x \<in> fst ` set old" by auto
    then obtain p where p: "p \<in> set old" "fst p = x" by (auto simp: image_iff)
    with ne [OF c'(1)] c'(2) have "p \<in> set (filter (\<lambda>p. fst p \<noteq> number c) old)" by simp
    with p(2) show "x \<in> fst ` set (filter (\<lambda>p. fst p \<noteq> number c) old)" by (metis imageI)
  qed
  have f: "filter (\<lambda>p. fst p \<notin> number ` set cs) (filter (\<lambda>p. fst p \<noteq> number c) old)
           = filter (\<lambda>p. fst p \<notin> number ` set (c # cs)) old"
    by (simp add: conj_commute)
  from Cons.IH [OF d rest sub] f kin show ?case
    by (simp add: configure_cameras_known [OF r] merged_same [OF a] status_none [OF a])
qed

section \<open>Reconciliation: the claims\<close>

lemma effect_kinds:
  "list_all is_open out1 \<Longrightarrow> Cam r k \<notin> set out1"
  "list_all is_open out1 \<Longrightarrow> Spy_ready m \<notin> set out1"
  "list_all is_open out1 \<Longrightarrow> filter is_ready out1 = []"
  by (auto simp: list_all_iff is_open_def is_ready_def filter_empty_conv split: effect.splits)

lemma removed_kinds:
  "Cam r Status \<notin> set (removed_for old)"
  "filter is_ready (removed_for old) = []"
  "Cam r Removed \<in> set (removed_for old) \<longleftrightarrow> r \<in> snd ` set old"
  by (auto simp: removed_for_def is_ready_def filter_empty_conv image_iff)

lemma loop_no_ready:
  "configure_cameras cs s old = Inr (s', old', out) \<Longrightarrow> filter is_ready out = []"
  by (drule loop_effects) (auto simp: list_all_iff loop_effect_def is_ready_def filter_empty_conv
      split: effect.splits)


text \<open>
  Claim C5. Every camera number present only in the snapshot is inserted with a fresh
  object and an \<open>added\<close> callout, every number present only in the live map is removed
  with a \<open>removed\<close> callout on its object, the map ends with exactly the numbers of the
  snapshot, and the last callout, and the only \<open>ready\<close> one, carries the resulting map.
\<close>

theorem reconcile_added_removed_ready:
  assumes "wf s" and "distinct (map number cams)"
  shows "\<exists>s' out pre. SecuritySpy_configure s (System_info nm ver cams) = Inr (s', out)
     \<and> out = pre @ [Spy_ready (cameras s')] \<and> filter is_ready pre = []
     \<and> fst ` set (cameras s') = number ` set cams
     \<and> (\<forall>c \<in> set cams. map_of (cameras s) (number c) = None \<longrightarrow>
           (\<exists>r. r \<notin> snd ` set (cameras s) \<and> map_of (cameras s') (number c) = Some r
              \<and> heap s' r = c \<and> Spy_added r \<in> set out))
     \<and> (\<forall>p \<in> set (cameras s). fst p \<notin> number ` set cams \<longrightarrow>
           map_of (cameras s') (fst p) = None \<and> Cam (snd p) Removed \<in> set out)"
proof -
  let ?s0 = "fst (prepared s nm ver)"
  let ?N = "number ` set cams"
  let ?old = "filter (\<lambda>p. fst p \<notin> ?N) (cameras s)"
  from configure_result [OF assms(1,2), of nm ver] obtain s1 out2 where
    l: "configure_cameras cams ?s0 (cameras s) = Inr (s1, ?old, out2)"
    and r: "SecuritySpy_configure s (System_info nm ver cams) =
         Inr (s1\<lparr>cameras := filter (\<lambda>p. fst p \<in> ?N) (cameras s1)\<rparr>,
              snd (prepared s nm ver) @ out2 @ removed_for ?old
                @ [Spy_ready (filter (\<lambda>p. fst p \<in> ?N) (cameras s1))])"
    by blast
  let ?s' = "s1\<lparr>cameras := filter (\<lambda>p. fst p \<in> ?N) (cameras s1)\<rparr>"
  let ?pre = "snd (prepared s nm ver) @ out2 @ removed_for ?old"
  have w0: "wf ?s0" using assms(1) by (simp add: wf_prepared)
  have nr: "filter is_ready ?pre = []"
    using loop_no_ready [OF l] effect_kinds(3) [OF prepared_fields(7), of s nm ver]
    by (simp add: removed_kinds)
  from loop_keys [OF l] have k: "fst ` set (cameras s1) = fst ` set (cameras s) \<union> ?N"
    by (simp add: prepared_fields)
  have keys: "fst ` set (cameras ?s') = ?N"
  proof
    show "fst ` set (cameras ?s') \<subseteq> ?N" by auto
    show "?N \<subseteq> fst ` set (cameras ?s')"
    proof
      fix n assume n: "n \<in> ?N"
      with k have "n \<in> fst ` set (cameras s1)" by simp
      then obtain p where "p \<in> set (cameras s1)" "fst p = n" by (auto simp: image_iff)
      with n have "p \<in> set (cameras ?s')" by simp
      with \<open>fst p = n\<close> show "n \<in> fst ` set (cameras ?s')" by (metis imageI)
    qed
  qed
  have added: "\<forall>c \<in> set cams. map_of (cameras s) (number c) = None \<longrightarrow>
           (\<exists>r. r \<notin> snd ` set (cameras s) \<and> map_of (cameras ?s') (number c) = Some r
              \<and> heap ?s' r = c \<and> Spy_added r \<in> set (?pre @ [Spy_ready (cameras ?s')]))"
  proof (intro ballI impI)
    fix c assume c: "c \<in> set cams" and n: "map_of (cameras s) (number c) = None"
    from n have m0: "map_of (cameras ?s0) (number c) = None" by (simp add: prepared_fields)
    from loop_new [OF w0 assms(2) l c m0] obtain r where
      rr: "next_ref s \<le> r" "map_of (cameras s1) (number c) = Some r" "heap s1 r = c"
        "Spy_added r \<in> set out2"
      by (auto simp: prepared_fields)
    have "r \<notin> snd ` set (cameras s)"
      using assms(1) rr(1) by (auto simp: wf_def list_all_iff)
    moreover have "map_of (cameras ?s') (number c) = Some r"
      using rr(2) c by (simp add: map_of_filter_key [of "\<lambda>k. k \<in> ?N"])
    ultimately show "\<exists>r. r \<notin> snd ` set (cameras s) \<and> map_of (cameras ?s') (number c) = Some r
              \<and> heap ?s' r = c \<and> Spy_added r \<in> set (?pre @ [Spy_ready (cameras ?s')])"
      using rr(3,4) by auto
  qed
  have removed: "\<forall>p \<in> set (cameras s). fst p \<notin> ?N \<longrightarrow>
           map_of (cameras ?s') (fst p) = None
           \<and> Cam (snd p) Removed \<in> set (?pre @ [Spy_ready (cameras ?s')])"
  proof (intro ballI impI)
    fix p assume p: "p \<in> set (cameras s)" and n: "fst p \<notin> ?N"
    have "map_of (cameras ?s') (fst p) = None"
      using n by (simp add: map_of_filter_key [of "\<lambda>k. k \<in> ?N"])
    moreover have "snd p \<in> snd ` set ?old" using p n by simp
    ultimately show "map_of (cameras ?s') (fst p) = None
           \<and> Cam (snd p) Removed \<in> set (?pre @ [Spy_ready (cameras ?s')])"
      by (simp add: removed_kinds)
  qed
  from r nr keys added removed show ?thesis
    by (intro exI [of _ ?s'] exI [of _ "?pre @ [Spy_ready (cameras ?s')]"] exI [of _ ?pre])
       simp
qed

lemma agrees_refresh: "agrees (fst (Camera_refresh self c)) c"
  by (simp add: agrees_def Camera_refresh_def Let_def)

lemma agrees_refl: "agrees c c"
  by (simp add: agrees_def)

lemma configure_Malformed:
  "SecuritySpy_configure s (Malformed x e) =
     (if x = ExpatError then Inr (s, [Spy_error e]) else Inl x)"
  by (simp add: SecuritySpy_configure_def)

lemma configure_loop_result:
  assumes "SecuritySpy_configure s (System_info nm ver cams) = Inr (s', out)"
  shows "\<exists>s1 old1 out2.
           configure_cameras cams (fst (prepared s nm ver)) (cameras s) = Inr (s1, old1, out2)"
  using assms by (auto simp: configure_unfold split: sum.splits)

text \<open>After \<open>_configure\<close> the state agrees with the camera list it was given.\<close>

lemma configure_post:
  assumes w: "wf s"
    and r: "SecuritySpy_configure s (System_info nm ver cams) = Inr (s', out)"
  shows "distinct (map number cams)"
    and "list_all (\<lambda>c. \<exists>r. map_of (cameras s') (number c) = Some r \<and> agrees (heap s' r) c) cams"
    and "fst ` set (cameras s') = number ` set cams"
    and "events s' \<noteq> None" and "server s' = nm" and "version s' = ver"
proof -
  let ?s0 = "fst (prepared s nm ver)"
  let ?N = "number ` set cams"
  from configure_loop_result [OF r] obtain sa olda outa where
    la: "configure_cameras cams ?s0 (cameras s) = Inr (sa, olda, outa)" by blast
  have sub: "fst ` set (cameras s) \<subseteq> fst ` set (cameras ?s0)" by (simp add: prepared_fields)
  from loop_distinct [OF sub la] show d: "distinct (map number cams)" .
  from configure_result [OF w d, of nm ver] la r
  have s': "s' = sa\<lparr>cameras := filter (\<lambda>p. fst p \<in> ?N) (cameras sa)\<rparr>"
    by auto
  have w0: "wf ?s0" using w by (simp add: wf_prepared)
  show "list_all (\<lambda>c. \<exists>r. map_of (cameras s') (number c) = Some r \<and> agrees (heap s' r) c) cams"
    unfolding list_all_iff
  proof
    fix c assume c: "c \<in> set cams"
    then have in_N: "number c \<in> ?N" by (metis imageI)
    show "\<exists>r. map_of (cameras s') (number c) = Some r \<and> agrees (heap s' r) c"
    proof (cases "map_of (cameras ?s0) (number c)")
      case None
      from loop_new [OF w0 d la c None] obtain r where
        "map_of (cameras sa) (number c) = Some r" "heap sa r = c" by blast
      then show ?thesis
        using in_N by (simp add: s' map_of_filter_key [of "\<lambda>k. k \<in> ?N"] agrees_refl)
    next
      case (Some r)
      from loop_known [OF w0 d la c Some]
      have "map_of (cameras sa) (number c) = Some r"
        "heap sa r = fst (Camera_refresh (heap ?s0 r) c)" by simp_all
      then show ?thesis
        using in_N by (simp add: s' map_of_filter_key [of "\<lambda>k. k \<in> ?N"] agrees_refresh)
    qed
  qed
  from loop_keys [OF la] have k: "fst ` set (cameras sa) = fst ` set (cameras s) \<union> ?N"
    by (simp add: prepared_fields)
  show "fst ` set (cameras s') = ?N"
  proof
    show "fst ` set (cameras s') \<subseteq> ?N" by (auto simp: s')
    show "?N \<subseteq> fst ` set (cameras s')"
    proof
      fix n assume n: "n \<in> ?N"
      with k have "n \<in> fst ` set (cameras sa)" by simp
      then obtain p where "p \<in> set (cameras sa)" "fst p = n" by (auto simp: image_iff)
      with n have "p \<in> set (cameras s')" by (simp add: s')
      with \<open>fst p = n\<close> show "n \<in> fst ` set (cameras s')" by (metis imageI)
    qed
  qed
  from loop_rest [OF la]
  show "events s' \<noteq> None" "server s' = nm" "version s' = ver"
    by (simp_all add: s' prepared_fields)
qed

lemma is_change_ready: "\<not> is_change (Spy_ready m)" "\<not> is_change (Spy_error e)"
  by (simp_all add: is_change_def)

text \<open>
  Claim C6. Running \<open>_configure\<close> again with the snapshot that produced the current
  state leaves the whole state as it is and calls out no \<open>added\<close>, \<open>removed\<close> or
  \<open>status\<close>.
\<close>

theorem reconcile_idempotent:
  assumes "wf s" and "SecuritySpy_configure s info = Inr (s1, out1)"
  shows "\<exists>out2. SecuritySpy_configure s1 info = Inr (s1, out2) \<and> filter is_change out2 = []"
proof (cases info)
  case (Malformed x e)
  with assms(2) show ?thesis
    by (auto simp: configure_Malformed is_change_ready split: if_splits)
next
  case (System_info nm ver cams)
  let ?N = "number ` set cams"
  from assms(2) have r: "SecuritySpy_configure s (System_info nm ver cams) = Inr (s1, out1)"
    by (simp add: System_info)
  note p = configure_post [OF assms(1) r]
  have idle: "prepared s1 nm ver = (s1, [])"
    using p(4,5,6) by (rule prepared_idle)
  have sub: "?N \<subseteq> fst ` set (cameras s1)" using p(3) by simp
  have e: "filter (\<lambda>p. fst p \<notin> ?N) (cameras s1) = []"
    using p(3) by (auto simp: filter_empty_conv)
  from loop_idle [OF p(1) p(2) sub] e
  have "configure_cameras cams s1 (cameras s1) = Inr (s1, [], [])" by simp
  then have "SecuritySpy_configure s1 (System_info nm ver cams) = Inr (s1, [Spy_ready (cameras s1)])"
    by (simp add: configure_unfold idle)
  then show ?thesis by (simp add: System_info is_change_ready)
qed

lemma wf_live123: "wf live123"
  by (simp add: wf_def live123_def)

lemma distinct_snap234: "distinct (map number snap234)"
  by (simp add: snap234_def mk_camera_def)

lemma numbers_snap234: "number ` set snap234 = {2, 3, 4}"
  by (simp add: snap234_def mk_camera_def)


theorem reconcile_added_removed_ready_witness:
  "wf live123 \<and> distinct (map number snap234)
   \<and> (\<exists>s' out pre. SecuritySpy_configure live123 (System_info (Some ''spy'') (Some ''5.1'') snap234)
          = Inr (s', out)
        \<and> out = pre @ [Spy_ready (cameras s')] \<and> filter is_ready pre = []
        \<and> fst ` set (cameras s') = {2, 3, 4}
        \<and> map_of (cameras s') 1 = None \<and> Cam 0 Removed \<in> set out
        \<and> (\<exists>r. r \<notin> {0, 1, 2} \<and> map_of (cameras s') 4 = Some r \<and> heap s' r = mk_camera 4
              \<and> Spy_added r \<in> set out))"
proof -
  have c4: "mk_camera 4 \<in> set snap234" by (simp add: snap234_def)
  have n4: "number (mk_camera 4) = 4" by (simp add: mk_camera_def)
  have m4: "map_of (cameras live123) (number (mk_camera 4)) = None"
    by (simp add: live123_def n4)
  have p1: "(1, 0) \<in> set (cameras live123)" by (simp add: live123_def)
  have n1: "fst (1::int, 0::nat) \<notin> number ` set snap234" by (simp add: numbers_snap234)
  have refs: "snd ` set (cameras live123) = {0, 1, 2}" by (simp add: live123_def)
  from reconcile_added_removed_ready [OF wf_live123 distinct_snap234, of "Some ''spy''" "Some ''5.1''"]
  obtain s' out pre where r:
    "SecuritySpy_configure live123 (System_info (Some ''spy'') (Some ''5.1'') snap234) = Inr (s', out)"
    "out = pre @ [Spy_ready (cameras s')]" "filter is_ready pre = []"
    "fst ` set (cameras s') = number ` set snap234"
    and a: "\<forall>c \<in> set snap234. map_of (cameras live123) (number c) = None \<longrightarrow>
           (\<exists>r. r \<notin> snd ` set (cameras live123) \<and> map_of (cameras s') (number c) = Some r
              \<and> heap s' r = c \<and> Spy_added r \<in> set out)"
    and d: "\<forall>p \<in> set (cameras live123). fst p \<notin> number ` set snap234 \<longrightarrow>
           map_of (cameras s') (fst p) = None \<and> Cam (snd p) Removed \<in> set out"
    by blast
  from a c4 m4 obtain r4 where r4: "r4 \<notin> {0, 1, 2}" "map_of (cameras s') 4 = Some r4"
    "heap s' r4 = mk_camera 4" "Spy_added r4 \<in> set out"
    by (auto simp: n4 refs)
  from d p1 n1 have "map_of (cameras s') 1 = None \<and> Cam 0 Removed \<in> set out"
    by fastforce
  with r r4 wf_live123 distinct_snap234 show ?thesis
    by (auto simp: numbers_snap234)
qed

theorem reconcile_idempotent_witness:
  "wf live123
   \<and> (\<exists>s1 out1 out2.
         SecuritySpy_configure live123 (System_info (Some ''spy'') (Some ''5.1'') snap234)
           = Inr (s1, out1)
       \<and> SecuritySpy_configure s1 (System_info (Some ''spy'') (Some ''5.1'') snap234)
           = Inr (s1, out2)
       \<and> filter is_change out2 = [])"
proof -
  from configure_result [OF wf_live123 distinct_snap234, of "Some ''spy''" "Some ''5.1''"]
  obtain s1 out1 where
    r: "SecuritySpy_configure live123 (System_info (Some ''spy'') (Some ''5.1'') snap234)
          = Inr (s1, out1)"
    by blast
  from reconcile_idempotent [OF wf_live123 r] r wf_live123 show ?thesis by blast
qed

text \<open>The example of the specification, run: live set 1, 2, 3 against snapshot 2, 3, 4.\<close>

lemma reconcile_example:
  "\<exists>s'. SecuritySpy_configure live123 (System_info (Some ''spy'') (Some ''5.1'') snap234)
          = Inr (s', [Cam 2 Status, Spy_added 3, Cam 0 Removed,
                      Spy_ready [(2, 1), (3, 2), (4, 3)]])
       \<and> cameras s' = [(2, 1), (3, 2), (4, 3)]"
  by (simp add: SecuritySpy_configure_def live123_def snap234_def mk_camera_def
      refresh_at_def Camera_refresh_def dict_del_def Let_def configure_cameras.simps(2))

end
